theory Spec2Isabelle
  imports Main
begin

section \<open>Data model\<close>

text \<open>
  The tree is built in Go through pointers: a node is appended to its parent first and is
  filled in afterwards through the pointer that the open-node stack keeps. The model
  therefore keeps an explicit store of nodes. An address is an index into the store,
  \<open>&Config{}\<close> appends a fresh cell, and the \<open>[]*Config\<close> of a node is a list of addresses.
  Bytes are \<open>char\<close>s, a \<open>[]byte\<close> is a \<open>string\<close>. Go's \<open>int\<close> is modelled by \<open>int\<close>
  for the counters and limits (the sentinel \<open>-1\<close> matters) and by \<open>nat\<close> for indices
  into a line; 64-bit overflow of the byte counter is out of reach of any input.

  The parser that is modelled first, and that the claims are about, is the one that keeps
  the open nodes on an explicit stack (\<open>iterParse\<close>); the tests of the repository are its
  tests. The earlier recursive parser of \<open>treetextconf.go\<close> follows in a section of its
  own.
\<close>

type_synonym addr = nat

record Config =
  name :: string
  value_c :: "addr list"

type_synonym heap = "Config list"

datatype error =
    EOF
  | ReadError string
  | ParserOptFuncError string
  | ConfigError (err_context: string) (err_line: int) (err_col: int)

text \<open>
  The \<open>*bufio.Reader\<close> is the only part outside the repository. It is modelled by what
  successive calls of \<open>ReadLine\<close> return: the fragments still to be delivered, each with
  its \<open>isPrefix\<close> flag, and the error that every call reports once the fragments are used
  up (\<open>io.EOF\<close> or a read failure). A call that reports an error returns a nil line.
\<close>

record reader =
  pending :: "(string \<times> bool) list"
  final :: error

record Parser =
  content :: reader
  line :: string
  lineno :: int
  size_p :: int
  heightLimit :: int
  sizeLimit :: int

definition apostrophe :: char where
  "apostrophe = CHR 0x27"

definition tab :: char where
  "tab = CHR 0x09"

subsection \<open>Formatting of integers (\<open>%d\<close>)\<close>

definition digit_char :: "nat \<Rightarrow> char" where
  "digit_char d = char_of (48 + d)"

function natstr :: "nat \<Rightarrow> string" where
  "natstr n = (if n < 10 then [digit_char n] else natstr (n div 10) @ [digit_char (n mod 10)])"
  by pat_completeness auto
termination
  by (relation "measure id") auto

declare natstr.simps [simp del]

definition itoa :: "int \<Rightarrow> string" where
  "itoa i = (if i < 0 then CHR ''-'' # natstr (nat (- i)) else natstr (nat i))"

section \<open>Construction of the parser\<close>

type_synonym ParserOptFunc = "Parser \<Rightarrow> error + Parser"

definition HeightLimit :: "int \<Rightarrow> ParserOptFunc" where
  "HeightLimit limit p =
     (if limit > 0 then Inr (p\<lparr>heightLimit := limit\<rparr>)
      else Inl (ParserOptFuncError ''Height limit must be greater than 0.''))"

definition SizeLimit :: "int \<Rightarrow> ParserOptFunc" where
  "SizeLimit limit p =
     (if limit > 0 then Inr (p\<lparr>sizeLimit := limit\<rparr>)
      else Inl (ParserOptFuncError ''Size limit must be greater than 0.''))"

fun applyOptions :: "Parser \<Rightarrow> ParserOptFunc list \<Rightarrow> error + Parser" where
  "applyOptions h [] = Inr h"
| "applyOptions h (option # options) =
     (case option h of Inl err \<Rightarrow> Inl err | Inr h' \<Rightarrow> applyOptions h' options)"

text \<open>The struct literal with which \<open>NewParser\<close> starts.\<close>

definition defaultParser :: "reader \<Rightarrow> Parser" where
  "defaultParser rd =
     \<lparr>content = rd, line = [], lineno = 0, size_p = 0, heightLimit = - 1, sizeLimit = - 1\<rparr>"

definition NewParser :: "reader \<Rightarrow> ParserOptFunc list \<Rightarrow> error + Parser" where
  "NewParser rd options = applyOptions (defaultParser rd) options"

section \<open>Limit checks\<close>

definition heightMsg :: "int \<Rightarrow> string" where
  "heightMsg limit = ''tree height exceeds limit: '' @ itoa limit"

definition sizeMsg :: "int \<Rightarrow> string" where
  "sizeMsg limit = ''size of config exceeds limit: '' @ itoa limit"

definition unterminatedMsg :: string where
  "unterminatedMsg = ''Unterminated compound group, not enough '' @ [apostrophe, CHR '':'', apostrophe]"

definition tooManyMsg :: string where
  "tooManyMsg = ''Too many compound terminators '' @ [apostrophe, CHR '':'', apostrophe]"

definition checkHeight :: "Parser \<Rightarrow> int \<Rightarrow> error option" where
  "checkHeight p height =
     (if heightLimit p \<noteq> - 1 then
        (if height > heightLimit p
         then Some (ConfigError (heightMsg (heightLimit p)) (lineno p) 0)
         else None)
      else None)"

definition checkSize :: "Parser \<Rightarrow> error option" where
  "checkSize p =
     (if sizeLimit p \<noteq> - 1 then
        (if size_p p \<ge> sizeLimit p
         then Some (ConfigError (sizeMsg (sizeLimit p)) (lineno p) 0)
         else None)
      else None)"

section \<open>Reading a logical line\<close>

definition ReadLine :: "reader \<Rightarrow> reader \<times> string \<times> bool \<times> error option" where
  "ReadLine rd =
     (case pending rd of
        [] \<Rightarrow> (rd, [], False, Some (final rd))
      | (l, isPrefix) # rest \<Rightarrow> (rd\<lparr>pending := rest\<rparr>, l, isPrefix, None))"

text \<open>The loop \<open>for prefix { ... }\<close> of \<open>nextLine\<close>, entered with \<open>prefix\<close> true.\<close>

function readMore :: "Parser \<Rightarrow> Parser \<times> error option" where
  "readMore p =
     (case ReadLine (content p) of (rd, tline, prefix, err) \<Rightarrow>
        let p1 = p\<lparr>content := rd\<rparr> in
        if err \<noteq> None \<and> err \<noteq> Some EOF then (p1, err)
        else
          let p2 = p1\<lparr>size_p := size_p p1 + int (length tline)\<rparr> in
          (case checkSize p2 of
             Some e \<Rightarrow> (p2, Some e)
           | None \<Rightarrow>
               let p3 = p2\<lparr>line := line p2 @ tline\<rparr> in
               if prefix then readMore p3 else (p3, None)))"
  by pat_completeness auto
termination
  by (relation "measure (\<lambda>p. length (pending (content p)))")
     (auto simp: ReadLine_def split: list.splits)

declare readMore.simps [simp del]

definition nextLine :: "Parser \<Rightarrow> Parser \<times> error option" where
  "nextLine p =
     (case ReadLine (content p) of (rd, l, prefix, err) \<Rightarrow>
        let p1 = p\<lparr>content := rd, line := l\<rparr> in
        (case err of
           Some e \<Rightarrow> (p1, Some e)
         | None \<Rightarrow>
             let p2 = p1\<lparr>size_p := size_p p1 + int (length l)\<rparr> in
             (case checkSize p2 of
                Some e \<Rightarrow> (p2, Some e)
              | None \<Rightarrow>
                  if prefix then
                    (case readMore p2 of
                       (p3, Some e) \<Rightarrow> (p3, Some e)
                     | (p3, None) \<Rightarrow> (p3\<lparr>lineno := lineno p3 + 1\<rparr>, None))
                  else (p2\<lparr>lineno := lineno p2 + 1\<rparr>, None))))"

section \<open>Classification of a line\<close>

text \<open>The loop that finds the start of the content.\<close>

function skipBlank :: "string \<Rightarrow> nat \<Rightarrow> nat" where
  "skipBlank ln i =
     (if i < length ln then
        (if ln ! i \<noteq> CHR '' '' \<and> ln ! i \<noteq> tab then i else skipBlank ln (i + 1))
      else i)"
  by pat_completeness auto
termination
  by (relation "measure (\<lambda>(ln, i). length ln - i)") auto

declare skipBlank.simps [simp del]

text \<open>The loop that looks for the start of a name-value pair.\<close>

function scanNV :: "string \<Rightarrow> nat \<Rightarrow> nat \<Rightarrow> int \<Rightarrow> bool \<Rightarrow> int" where
  "scanNV ln i end nvPairNameEnd foundNVPairMaybe =
     (if i < end then
        (if ln ! i = CHR '':'' then scanNV ln (i + 1) end nvPairNameEnd True
         else if foundNVPairMaybe \<and> ln ! i = CHR '' '' then
           scanNV ln (i + 1) end (int i - 1) foundNVPairMaybe
         else if foundNVPairMaybe then scanNV ln (i + 1) end nvPairNameEnd False
         else scanNV ln (i + 1) end nvPairNameEnd foundNVPairMaybe)
      else nvPairNameEnd)"
  by pat_completeness auto
termination
  by (relation "measure (\<lambda>(ln, i, end, nv, f). end - i)") auto

declare scanNV.simps [simp del]

text \<open>A Go slice expression \<open>s[lo:hi]\<close>.\<close>

definition slice :: "string \<Rightarrow> nat \<Rightarrow> nat \<Rightarrow> string" where
  "slice s lo hi = take (hi - lo) (drop lo s)"

text \<open>
  The first half of the body of the loop of \<open>iterParse\<close>, up to the \<open>switch\<close> that builds
  the tree: \<open>None\<close> where the body says \<open>continue\<close> (an empty line, a comment), otherwise
  \<open>start\<close>, \<open>end\<close>, \<open>endToken\<close>, \<open>foundContentStart\<close> and \<open>nvPairNameEnd\<close>.
\<close>

definition scanLine :: "string \<Rightarrow> (nat \<times> nat \<times> char \<times> bool \<times> int) option" where
  "scanLine ln =
     (let i = skipBlank ln 0 in
      if i = length ln then None
      else if ln ! i \<noteq> apostrophe \<and> ln ! i = CHR ''#'' then None
      else
        let foundContentStart = (ln ! i = apostrophe);
            i = (if foundContentStart then i + 1 else i);
            start = i;
            end0 = length ln;
            endToken = ln ! (end0 - 1);
            end = (if endToken = CHR '':'' then end0 - 1
                   else if endToken = apostrophe then (if start \<noteq> end0 then end0 - 1 else end0)
                   else end0);
            nvPairNameEnd = scanNV ln i end (- 1) False
        in Some (start, end, endToken, foundContentStart, nvPairNameEnd))"

section \<open>Building the tree\<close>

definition newConfig :: "heap \<Rightarrow> string \<Rightarrow> heap \<times> addr" where
  "newConfig h n = (h @ [\<lparr>name = n, value_c = []\<rparr>], length h)"

definition addValue :: "heap \<Rightarrow> addr \<Rightarrow> addr \<Rightarrow> heap" where
  "addValue h c v = h[c := (h ! c)\<lparr>value_c := value_c (h ! c) @ [v]\<rparr>]"

definition setName :: "heap \<Rightarrow> addr \<Rightarrow> string \<Rightarrow> heap" where
  "setName h a n = h[a := (h ! a)\<lparr>name := n\<rparr>]"

text \<open>
  The second half of the body: the \<open>switch\<close> on \<open>endToken\<close>. The result is the store, the
  stack, the current node \<open>c\<close>, the value of \<open>err\<close>, and whether the body left the loop by
  \<open>break out\<close>.
\<close>

definition buildNode ::
  "Parser \<Rightarrow> heap \<Rightarrow> addr list \<Rightarrow> addr \<Rightarrow> (nat \<times> nat \<times> char \<times> bool \<times> int)
     \<Rightarrow> heap \<times> addr list \<times> addr \<times> error option \<times> bool" where
  "buildNode p h stack c sc =
     (case sc of (start, end, endToken, foundContentStart, nvPairNameEnd) \<Rightarrow>
        (case newConfig h [] of (h1, newConf) \<Rightarrow>
           if endToken = CHR '':'' then
             (if start = end \<and> \<not> foundContentStart then
                (let stack' = butlast stack in
                 if length stack' = 0 then (h1, stack', c, None, True)
                 else (h1, stack', last stack', None, False))
              else
                (let h2 = addValue h1 c newConf;
                     h3 = setName h2 newConf (slice (line p) start end);
                     stack' = stack @ [newConf];
                     err = checkHeight p (int (length stack') - 1)
                 in if err \<noteq> None then (h3, stack', newConf, err, True)
                    else (h3, stack', newConf, err, False)))
           else if nvPairNameEnd \<noteq> - 1 then
             (let h2 = setName h1 newConf (slice (line p) start (nat nvPairNameEnd));
                  (h3, newNewConf) = newConfig h2 (slice (line p) (nat (nvPairNameEnd + 2)) end);
                  h4 = addValue h3 newConf newNewConf;
                  h5 = addValue h4 c newConf
              in (h5, stack, c, None, False))
           else
             (let h2 = setName h1 newConf (slice (line p) start end);
                  h3 = addValue h2 c newConf
              in (h3, stack, c, None, False))))"

definition loopBody ::
  "Parser \<Rightarrow> heap \<Rightarrow> addr list \<Rightarrow> addr \<Rightarrow> heap \<times> addr list \<times> addr \<times> error option \<times> bool" where
  "loopBody p h stack c =
     (case scanLine (line p) of
        None \<Rightarrow> (h, stack, c, None, False)
      | Some sc \<Rightarrow> buildNode p h stack c sc)"

lemma ReadLine_pending:
  "ReadLine rd = (rd', l, pfx, None) \<Longrightarrow> length (pending rd') < length (pending rd)"
  by (auto simp: ReadLine_def split: list.splits)

lemma ReadLine_pending_le:
  "ReadLine rd = (rd', l, pfx, e) \<Longrightarrow> length (pending rd') \<le> length (pending rd)"
  by (auto simp: ReadLine_def split: list.splits)

lemma readMore_pending_le:
  "readMore p = (p', e) \<Longrightarrow> length (pending (content p')) \<le> length (pending (content p))"
proof (induction p arbitrary: p' e rule: readMore.induct)
  case (1 p)
  obtain rd tline pfx err where R: "ReadLine (content p) = (rd, tline, pfx, err)"
    by (metis prod_cases4)
  have le: "length (pending rd) \<le> length (pending (content p))"
    using ReadLine_pending_le [OF R] .
  show ?case
  proof (cases "err \<noteq> None \<and> err \<noteq> Some EOF")
    case True
    with "1.prems" R le show ?thesis
      by (auto simp: readMore.simps [of p])
  next
    case False
    let ?p2 = "p\<lparr>content := rd, size_p := size_p p + int (length tline)\<rparr>"
    show ?thesis
    proof (cases "checkSize ?p2")
      case (Some e')
      with "1.prems" R le False show ?thesis
        by (auto simp: readMore.simps [of p] Let_def)
    next
      case None
      show ?thesis
      proof (cases pfx)
        case True
        let ?p3 = "?p2\<lparr>line := line ?p2 @ tline\<rparr>"
        from "1.prems" R False None True have rm: "readMore ?p3 = (p', e)"
          by (auto simp: readMore.simps [of p] Let_def)
        have "length (pending (content p')) \<le> length (pending (content ?p3))"
          using "1.IH" [OF R [symmetric] refl refl refl False refl _ refl True, of p' e] None rm
          by simp
        with le show ?thesis by simp
      next
        case pf: False
        with "1.prems" R le False None show ?thesis
          by (auto simp: readMore.simps [of p] Let_def)
      qed
    qed
  qed
qed

lemma nextLine_pending:
  assumes "nextLine p = (p', None)"
  shows "length (pending (content p')) < length (pending (content p))"
proof -
  obtain rd l pfx err where R: "ReadLine (content p) = (rd, l, pfx, err)"
    by (metis prod_cases4)
  from assms R have err: "err = None"
    by (auto simp: nextLine_def Let_def split: option.splits)
  have lt: "length (pending rd) < length (pending (content p))"
    using ReadLine_pending R err by blast
  let ?p2 = "p\<lparr>content := rd, line := l, size_p := size_p p + int (length l)\<rparr>"
  from assms R err have cs: "checkSize ?p2 = None"
    by (auto simp: nextLine_def Let_def split: option.splits)
  show ?thesis
  proof (cases pfx)
    case True
    obtain p3 e3 where rm: "readMore ?p2 = (p3, e3)" by (metis surj_pair)
    with assms R err cs True have "e3 = None" and "p' = p3\<lparr>lineno := lineno p3 + 1\<rparr>"
      by (auto simp: nextLine_def Let_def split: option.splits)
    moreover have "length (pending (content p3)) \<le> length (pending (content ?p2))"
      using readMore_pending_le [OF rm] .
    ultimately show ?thesis using lt by simp
  next
    case False
    with assms R err cs lt show ?thesis
      by (auto simp: nextLine_def Let_def)
  qed
qed

section \<open>The parse loop\<close>

text \<open>
  The loop \<open>for err = p.nextLine(); err == nil; err = p.nextLine()\<close> of \<open>iterParse\<close>. It
  returns the state in which the loop is left: the parser, the store, the stack and \<open>err\<close>.
  Every round consumes at least one fragment of the reader, which is why it ends.
\<close>

function iterLoop ::
  "Parser \<Rightarrow> heap \<Rightarrow> addr list \<Rightarrow> addr \<Rightarrow> Parser \<times> heap \<times> addr list \<times> error option" where
  "iterLoop p h stack c =
     (case nextLine p of
        (p', Some e) \<Rightarrow> (p', h, stack, Some e)
      | (p', None) \<Rightarrow>
          (case loopBody p' h stack c of
             (h', stack', c', err, True) \<Rightarrow> (p', h', stack', err)
           | (h', stack', c', err, False) \<Rightarrow> iterLoop p' h' stack' c'))"
  by pat_completeness auto
termination
  by (relation "measure (\<lambda>(p, h, stack, c). length (pending (content p)))")
     (auto dest: nextLine_pending [OF sym])

declare iterLoop.simps [simp del]

text \<open>The code of \<open>iterParse\<close> after the loop.\<close>

definition finish :: "Parser \<Rightarrow> addr list \<Rightarrow> error option \<Rightarrow> error option" where
  "finish p stack err =
     (if err = Some EOF \<and> length stack > 1 then
        Some (ConfigError unterminatedMsg (lineno p) 0)
      else if length stack = 0 then
        Some (ConfigError tooManyMsg (lineno p) 0)
      else if err \<noteq> Some EOF then err
      else None)"

definition iterParse :: "Parser \<Rightarrow> heap \<Rightarrow> addr \<Rightarrow> Parser \<times> heap \<times> error option" where
  "iterParse p h root =
     (case iterLoop p h [root] root of
        (p', h', stack, err) \<Rightarrow> (p', h', finish p' stack err))"

text \<open>
  \<open>ParseConfig\<close> returns the root and the error; the model also returns the parser as the
  call leaves it and the store in which the root's address is to be read.
\<close>

definition ParseConfig :: "Parser \<Rightarrow> Parser \<times> heap \<times> addr \<times> error option" where
  "ParseConfig p =
     (case newConfig [] ''__root__'' of
        (h, root) \<Rightarrow>
          (case iterParse p h root of (p', h', err) \<Rightarrow> (p', h', root, err)))"

text \<open>The tree below an address, read off the store to a given depth.\<close>

datatype tree = Node string "tree list"

fun tree_of :: "heap \<Rightarrow> nat \<Rightarrow> addr \<Rightarrow> tree" where
  "tree_of h 0 a = Node (name (h ! a)) []"
| "tree_of h (Suc n) a = Node (name (h ! a)) (map (tree_of h n) (value_c (h ! a)))"

text \<open>A reader over lines that fit the buffer, ending in \<open>io.EOF\<close>.\<close>

definition linesReader :: "string list \<Rightarrow> reader" where
  "linesReader ls = \<lparr>pending = map (\<lambda>l. (l, False)) ls, final = EOF\<rparr>"

section \<open>Runs of the loop\<close>

text \<open>
  One round of the loop that ends in its head again, and the state after \<open>n\<close> such
  rounds. A state \<open>(p, h, stack, c)\<close> is met during the parse of an input when some number
  of rounds leads to it from the state in which \<open>iterParse\<close> enters the loop.
\<close>

definition round ::
  "Parser \<Rightarrow> heap \<Rightarrow> addr list \<Rightarrow> addr \<Rightarrow> (Parser \<times> heap \<times> addr list \<times> addr) option" where
  "round p h stack c =
     (case nextLine p of
        (p1, Some e) \<Rightarrow> None
      | (p1, None) \<Rightarrow>
          (case loopBody p1 h stack c of
             (h1, stack1, c1, err, True) \<Rightarrow> None
           | (h1, stack1, c1, err, False) \<Rightarrow> Some (p1, h1, stack1, c1)))"

fun rounds ::
  "nat \<Rightarrow> Parser \<times> heap \<times> addr list \<times> addr \<Rightarrow> (Parser \<times> heap \<times> addr list \<times> addr) option" where
  "rounds 0 s = Some s"
| "rounds (Suc n) (p, h, stack, c) =
     (case round p h stack c of None \<Rightarrow> None | Some s' \<Rightarrow> rounds n s')"

text \<open>
  The lines at which the \<open>switch\<close> of the loop body pops the stack: the test of its first
  case.
\<close>

definition isCloseScope :: "string \<Rightarrow> bool" where
  "isCloseScope ln =
     (case scanLine ln of
        None \<Rightarrow> False
      | Some (start, end, endToken, foundContentStart, nvPairNameEnd) \<Rightarrow>
          endToken = CHR '':'' \<and> start = end \<and> \<not> foundContentStart)"

text \<open>
  The invariant of the loop: the stack is not empty at the head of the loop, its bottom is
  the root, \<open>c\<close> is its top, and every address on it is allocated.
\<close>

definition stackInv :: "addr \<Rightarrow> heap \<Rightarrow> addr list \<Rightarrow> addr \<Rightarrow> bool" where
  "stackInv root h stack c \<longleftrightarrow>
     stack \<noteq> [] \<and> hd stack = root \<and> c = last stack \<and> list_all (\<lambda>a. a < length h) stack"

text \<open>The state in which \<open>ParseConfig\<close> enters the loop: the root alone.\<close>

definition rootHeap :: heap where
  "rootHeap = [\<lparr>name = ''__root__'', value_c = []\<rparr>]"

text \<open>
  The store after the open-scope case of the \<open>switch\<close>: the node allocated for the line,
  named \<open>nm\<close> and without children, is the newest cell, and its address is appended to the
  children of \<open>c\<close>.
\<close>

definition opened :: "heap \<Rightarrow> addr \<Rightarrow> string \<Rightarrow> heap" where
  "opened h c nm =
     (h @ [\<lparr>name = nm, value_c = []\<rparr>])[c := (h ! c)\<lparr>value_c := value_c (h ! c) @ [length h]\<rparr>]"

text \<open>
  What \<open>bufio.Reader.ReadLine\<close> delivers for a stream of bytes whose lines fit the buffer,
  after the documentation of the Go library: the text of every line without its line end
  (\<open>\n\<close> or \<open>\r\n\<close>), and no line after a final line end. \<open>cur\<close> holds the bytes of the
  line that is being collected.
\<close>

definition newline :: char where
  "newline = CHR 0x0A"

definition carriageReturn :: char where
  "carriageReturn = CHR 0x0D"

definition dropCR :: "string \<Rightarrow> string" where
  "dropCR l = (if l \<noteq> [] \<and> last l = carriageReturn then butlast l else l)"

fun bufioLines :: "string \<Rightarrow> string \<Rightarrow> string list" where
  "bufioLines cur [] = (if cur = [] then [] else [cur])"
| "bufioLines cur (b # bs) =
     (if b = newline then dropCR cur # bufioLines [] bs else bufioLines (cur @ [b]) bs)"

definition bytesReader :: "string \<Rightarrow> reader" where
  "bytesReader bs = linesReader (bufioLines [] bs)"

text \<open>The bytes that a list of fragments holds, and the fragments of the first logical line.\<close>

fun fragBytes :: "(string \<times> bool) list \<Rightarrow> int" where
  "fragBytes [] = 0"
| "fragBytes ((l, isPrefix) # rest) = int (length l) + fragBytes rest"

fun lineFrags :: "(string \<times> bool) list \<Rightarrow> (string \<times> bool) list" where
  "lineFrags [] = []"
| "lineFrags ((l, isPrefix) # rest) = (l, isPrefix) # (if isPrefix then lineFrags rest else [])"

text \<open>Every address that a node of the store holds is allocated.\<close>

definition closedHeap :: "heap \<Rightarrow> bool" where
  "closedHeap h = list_all (\<lambda>cell. list_all (\<lambda>a. a < length h) (value_c cell)) h"

section \<open>The recursive parser\<close>

text \<open>
  \<open>treetextconf.go\<close> holds an earlier parser that recurses on every group, with the same
  \<open>nextLine\<close> and the same scan of a line. Its \<open>checkHeight\<close> compares with \<open>>=\<close> and is
  called on entry with the depth of the node to fill; its loop goes on for as long as
  \<open>nextLine\<close> returns anything but \<open>io.EOF\<close>, so it runs the body also after an error.
  Since that loop need not end, the model takes fuel: one unit for every call and every
  round, and \<open>None\<close> when it is used up.
\<close>

definition checkHeight_recursive :: "Parser \<Rightarrow> int \<Rightarrow> error option" where
  "checkHeight_recursive p height =
     (if heightLimit p \<noteq> - 1 then
        (if height \<ge> heightLimit p
         then Some (ConfigError (heightMsg (heightLimit p)) (lineno p) 0)
         else None)
      else None)"

fun recursiveParse :: "nat \<Rightarrow> Parser \<Rightarrow> heap \<Rightarrow> addr \<Rightarrow> int \<Rightarrow> (Parser \<times> heap \<times> error option) option"
  and recursiveLoop :: "nat \<Rightarrow> Parser \<Rightarrow> heap \<Rightarrow> addr \<Rightarrow> int \<Rightarrow> (Parser \<times> heap \<times> error option) option"
  where
  "recursiveParse 0 p h c height = None"
| "recursiveParse (Suc fuel) p h c height =
     (case checkHeight_recursive p height of
        Some e \<Rightarrow> Some (p, h, Some e)
      | None \<Rightarrow> recursiveLoop fuel p h c height)"
| "recursiveLoop 0 p h c height = None"
| "recursiveLoop (Suc fuel) p h c height =
     (case nextLine p of (p1, err) \<Rightarrow>
        if err = Some EOF then
          Some (p1, h,
                if height > 0 then Some (ConfigError unterminatedMsg (lineno p1) 0) else Some EOF)
        else
          (case scanLine (line p1) of
             None \<Rightarrow> recursiveLoop fuel p1 h c height
           | Some (start, end, endToken, foundContentStart, nvPairNameEnd) \<Rightarrow>
               (case newConfig h [] of (h1, newConf) \<Rightarrow>
                  if endToken = CHR '':'' then
                    (if start = end \<and> \<not> foundContentStart then Some (p1, h1, None)
                     else
                       (let h2 = addValue h1 c newConf;
                            h3 = setName h2 newConf (slice (line p1) start end)
                        in case recursiveParse fuel p1 h3 newConf (height + 1) of
                             None \<Rightarrow> None
                           | Some (p2, h4, Some e) \<Rightarrow> Some (p2, h4, Some e)
                           | Some (p2, h4, None) \<Rightarrow> recursiveLoop fuel p2 h4 c height))
                  else if nvPairNameEnd \<noteq> - 1 then
                    (let h2 = setName h1 newConf (slice (line p1) start (nat nvPairNameEnd));
                         (h3, newNewConf) =
                            newConfig h2 (slice (line p1) (nat (nvPairNameEnd + 2)) end);
                         h4 = addValue h3 newConf newNewConf;
                         h5 = addValue h4 c newConf
                     in recursiveLoop fuel p1 h5 c height)
                  else
                    (let h2 = setName h1 newConf (slice (line p1) start end);
                         h3 = addValue h2 c newConf
                     in recursiveLoop fuel p1 h3 c height))))"

definition ParseConfig_recursive ::
  "nat \<Rightarrow> Parser \<Rightarrow> (Parser \<times> heap \<times> addr \<times> error option) option" where
  "ParseConfig_recursive fuel p =
     (case newConfig [] ''__root__'' of
        (h, root) \<Rightarrow>
          (case recursiveParse fuel p h root 0 of
             None \<Rightarrow> None
           | Some (p', h', err) \<Rightarrow>
               Some (p', h', root,
                     if err = None then Some (ConfigError tooManyMsg (lineno p') 0)
                     else if err \<noteq> Some EOF then err
                     else None)))"

section \<open>Unfolding the loop\<close>

lemma iterLoop_err:
  "nextLine p = (p1, Some e) \<Longrightarrow> iterLoop p h stack c = (p1, h, stack, Some e)"
  by (simp add: iterLoop.simps [of p h stack c])

lemma iterLoop_break:
  "nextLine p = (p1, None) \<Longrightarrow> loopBody p1 h stack c = (h1, stack1, c1, err1, True) \<Longrightarrow>
   iterLoop p h stack c = (p1, h1, stack1, err1)"
  by (simp add: iterLoop.simps [of p h stack c])

lemma iterLoop_cont:
  "nextLine p = (p1, None) \<Longrightarrow> loopBody p1 h stack c = (h1, stack1, c1, err1, False) \<Longrightarrow>
   iterLoop p h stack c = iterLoop p1 h1 stack1 c1"
  by (simp add: iterLoop.simps [of p h stack c])

lemma iterLoop_rounds [case_names round]:
  assumes step: "\<And>p h stack c.
     (\<And>p1 h1 stack1 c1 err1. nextLine p = (p1, None) \<Longrightarrow>
        loopBody p1 h stack c = (h1, stack1, c1, err1, False) \<Longrightarrow> P p1 h1 stack1 c1) \<Longrightarrow>
     P p h stack c"
  shows "P p h stack c"
proof (induction p h stack c rule: iterLoop.induct)
  case (1 p h stack c)
  show ?case
  proof (rule step)
    fix p1 h1 stack1 c1 err1
    assume nl: "nextLine p = (p1, None)"
      and lb: "loopBody p1 h stack c = (h1, stack1, c1, err1, False)"
    show "P p1 h1 stack1 c1"
      by (rule "1.IH" [OF nl [symmetric] refl lb [symmetric] refl refl refl refl])
  qed
qed

lemma addValue_name: "name (addValue h c v ! a) = name (h ! a)"
  by (cases "c < length h"; cases "a = c") (simp_all add: addValue_def list_update_beyond)

lemma addValue_length: "length (addValue h c v) = length h"
  by (simp add: addValue_def)

lemma setName_length: "length (setName h a n) = length h"
  by (simp add: setName_def)

lemma setName_other: "a \<noteq> b \<Longrightarrow> setName h b n ! a = h ! a"
  by (simp add: setName_def)

lemma buildNode_keeps:
  assumes "buildNode p h stack c sc = (h', stack', c', err, brk)" and "a < length h"
  shows "a < length h' \<and> name (h' ! a) = name (h ! a)"
  using assms
  by (auto simp: buildNode_def newConfig_def Let_def addValue_name addValue_length
      setName_length setName_other nth_append split: if_splits prod.splits)

lemma loopBody_keeps:
  assumes "loopBody p h stack c = (h', stack', c', err, brk)" and "a < length h"
  shows "a < length h' \<and> name (h' ! a) = name (h ! a)"
  using assms buildNode_keeps
  by (auto simp: loopBody_def split: option.splits)

lemma iterLoop_keeps:
  "iterLoop p h stack c = (p', h', stack', err) \<Longrightarrow> a < length h \<Longrightarrow>
   a < length h' \<and> name (h' ! a) = name (h ! a)"
proof (induction p h stack c rule: iterLoop_rounds)
  case (round p h stack c)
  obtain p1 e1 where nl: "nextLine p = (p1, e1)" by (metis surj_pair)
  show ?case
  proof (cases e1)
    case (Some e)
    with round.prems iterLoop_err nl show ?thesis by fastforce
  next
    case None
    obtain h1 stack1 c1 err1 brk where lb: "loopBody p1 h stack c = (h1, stack1, c1, err1, brk)"
      by (metis prod_cases5)
    from loopBody_keeps [OF lb round.prems(2)]
    have k: "a < length h1" "name (h1 ! a) = name (h ! a)" by simp_all
    show ?thesis
    proof (cases brk)
      case True
      with round.prems nl None lb k iterLoop_break [of p p1 h stack c h1 stack1 c1 err1]
      show ?thesis by simp
    next
      case False
      with nl None lb have nl': "nextLine p = (p1, None)"
        and lb': "loopBody p1 h stack c = (h1, stack1, c1, err1, False)" by simp_all
      from iterLoop_cont [OF nl' lb'] round.prems(1)
      have "iterLoop p1 h1 stack1 c1 = (p', h', stack', err)" by simp
      from round.IH [OF nl' lb' this k(1)] k(2) show ?thesis by simp
    qed
  qed
qed

lemma round_Some:
  "round p h stack c = Some (p1, h1, stack1, c1) \<longleftrightarrow>
   nextLine p = (p1, None) \<and> (\<exists>err. loopBody p1 h stack c = (h1, stack1, c1, err, False))"
  by (auto simp: round_def split: prod.splits option.splits bool.splits)

lemma round_iterLoop:
  "round p h stack c = Some (p1, h1, stack1, c1) \<Longrightarrow>
   iterLoop p h stack c = iterLoop p1 h1 stack1 c1"
  by (auto simp: round_Some intro: iterLoop_cont)

lemma rounds_iterLoop:
  "rounds n (p, h, stack, c) = Some (p1, h1, stack1, c1) \<Longrightarrow>
   iterLoop p h stack c = iterLoop p1 h1 stack1 c1"
proof (induction n arbitrary: p h stack c)
  case 0
  then show ?case by simp
next
  case (Suc n)
  then obtain q k st d where r: "round p h stack c = Some (q, k, st, d)"
    and rs: "rounds n (q, k, st, d) = Some (p1, h1, stack1, c1)"
    by (auto split: option.splits)
  from round_iterLoop [OF r] Suc.IH [OF rs] show ?case by simp
qed

lemma hd_butlast: "butlast xs \<noteq> [] \<Longrightarrow> hd (butlast xs) = hd xs"
  by (cases xs) auto

lemma buildNode_length:
  "buildNode p h stack c sc = (h', stack', c', err, brk) \<Longrightarrow> length h \<le> length h'"
  by (auto simp: buildNode_def newConfig_def Let_def addValue_length setName_length
      split: if_splits prod.splits)

lemma buildNode_stackInv:
  assumes "buildNode p h stack c sc = (h', stack', c', err, brk)" and "stackInv root h stack c"
  shows "(brk \<and> stack' = [] \<and> err = None \<and> length stack = 1) \<or> stackInv root h' stack' c'"
proof -
  from assms(2) have ne: "stack \<noteq> []" and hdr: "hd stack = root" and c: "c = last stack"
    and al: "list_all (\<lambda>a. a < length h) stack"
    by (simp_all add: stackInv_def)
  have le: "length h \<le> length h'" using buildNode_length [OF assms(1)] .
  have al': "list_all (\<lambda>a. a < length h') stack"
    using al le by (auto simp: list_all_iff)
  have bl: "list_all (\<lambda>a. a < length h') (butlast stack)"
    using al' by (auto simp: list_all_iff dest: in_set_butlastD)
  from ne have len1: "butlast stack = [] \<Longrightarrow> length stack = 1"
    by (cases stack) (auto split: if_splits)
  show ?thesis
    using assms(1) ne hdr c al' bl len1
    by (auto simp: buildNode_def newConfig_def Let_def stackInv_def hd_butlast
        addValue_length setName_length split: if_splits prod.splits)
qed

lemma loopBody_stackInv:
  assumes "loopBody p h stack c = (h', stack', c', err, brk)" and "stackInv root h stack c"
  shows "(brk \<and> stack' = [] \<and> err = None \<and> length stack = 1) \<or> stackInv root h' stack' c'"
  using assms buildNode_stackInv
  by (auto simp: loopBody_def split: option.splits)

lemma round_stackInv:
  "round p h stack c = Some (p1, h1, stack1, c1) \<Longrightarrow> stackInv root h stack c \<Longrightarrow>
   stackInv root h1 stack1 c1"
  by (auto simp: round_Some dest: loopBody_stackInv)

lemma rounds_stackInv:
  "rounds n (p, h, stack, c) = Some (p1, h1, stack1, c1) \<Longrightarrow> stackInv root h stack c \<Longrightarrow>
   stackInv root h1 stack1 c1"
proof (induction n arbitrary: p h stack c)
  case 0
  then show ?case by simp
next
  case (Suc n)
  then obtain q k st d where r: "round p h stack c = Some (q, k, st, d)"
    and rs: "rounds n (q, k, st, d) = Some (p1, h1, stack1, c1)"
    by (auto split: option.splits)
  from Suc.IH [OF rs round_stackInv [OF r Suc.prems(2)]] show ?case .
qed

lemma iterLoop_exit_stack:
  "iterLoop p h stack c = (p', h', stack', err) \<Longrightarrow> stackInv root h stack c \<Longrightarrow>
   (stack' = [] \<and> err = None) \<or> (stack' \<noteq> [] \<and> hd stack' = root)"
proof (induction p h stack c rule: iterLoop_rounds)
  case (round p h stack c)
  obtain p1 e1 where nl: "nextLine p = (p1, e1)" by (metis surj_pair)
  show ?case
  proof (cases e1)
    case (Some e)
    with round.prems iterLoop_err nl show ?thesis by (fastforce simp: stackInv_def)
  next
    case None
    obtain h1 stack1 c1 err1 brk where lb: "loopBody p1 h stack c = (h1, stack1, c1, err1, brk)"
      by (metis prod_cases5)
    note inv = loopBody_stackInv [OF lb round.prems(2)]
    show ?thesis
    proof (cases brk)
      case True
      with round.prems nl None lb iterLoop_break [of p p1 h stack c h1 stack1 c1 err1]
      have "stack' = stack1" "err = err1" by simp_all
      with inv show ?thesis by (auto simp: stackInv_def)
    next
      case False
      with nl None lb have nl': "nextLine p = (p1, None)"
        and lb': "loopBody p1 h stack c = (h1, stack1, c1, err1, False)" by simp_all
      from iterLoop_cont [OF nl' lb'] round.prems(1)
      have il: "iterLoop p1 h1 stack1 c1 = (p', h', stack', err)" by simp
      from inv False have "stackInv root h1 stack1 c1" by simp
      from round.IH [OF nl' lb' il this] show ?thesis .
    qed
  qed
qed

lemma stackInv_rootHeap: "stackInv 0 rootHeap [0] 0"
  by (simp add: stackInv_def rootHeap_def)

lemma ParseConfig_iterLoop:
  "iterLoop p rootHeap [0] 0 = (p', h', stack, err) \<Longrightarrow>
   ParseConfig p = (p', h', 0, finish p' stack err)"
  by (simp add: ParseConfig_def newConfig_def iterParse_def rootHeap_def)

text \<open>The equations that evaluate a round on a concrete input.\<close>

lemmas eval_defs = round_def nextLine_def ReadLine_def checkSize_def defaultParser_def
  linesReader_def loopBody_def scanLine_def skipBlank.simps scanNV.simps buildNode_def
  newConfig_def addValue_def setName_def slice_def checkHeight_def rootHeap_def
  apostrophe_def tab_def

lemma rounds_then_error:
  assumes "rounds n (p0, h0, stack0, c0) = Some (p, h, stack, c)" and "nextLine p = (p1, Some e)"
  shows "iterLoop p0 h0 stack0 c0 = (p1, h, stack, Some e)"
  using rounds_iterLoop [OF assms(1)] iterLoop_err [OF assms(2)] by simp

lemma rounds_then_break:
  assumes "rounds n (p0, h0, stack0, c0) = Some (p, h, stack, c)" and "nextLine p = (p1, None)"
    and "loopBody p1 h stack c = (h1, stack1, c1, err, True)"
  shows "iterLoop p0 h0 stack0 c0 = (p1, h1, stack1, err)"
  using rounds_iterLoop [OF assms(1)] iterLoop_break [OF assms(2,3)] by simp

lemma opened_new: "c < length h \<Longrightarrow> opened h c nm ! length h = \<lparr>name = nm, value_c = []\<rparr>"
  by (simp add: opened_def)

lemma opened_parent:
  "c < length h \<Longrightarrow> value_c (opened h c nm ! c) = value_c (h ! c) @ [length h]"
  by (simp add: opened_def nth_append)

lemma opened_length: "length (opened h c nm) = Suc (length h)"
  by (simp add: opened_def)

lemma checkHeight_not_EOF: "checkHeight p d \<noteq> Some EOF"
  by (simp add: checkHeight_def)

lemma loopBody_open:
  assumes sc: "scanLine (line p1) = Some (start, end, CHR '':'', fcs, nv)"
    and op: "\<not> (start = end \<and> \<not> fcs)"
    and c: "c < length h"
  shows "loopBody p1 h stack c =
           (opened h c (slice (line p1) start end), stack @ [length h], length h,
            checkHeight p1 (int (length stack)), checkHeight p1 (int (length stack)) \<noteq> None)"
  using assms
  by (auto simp: opened_def loopBody_def buildNode_def newConfig_def addValue_def setName_def Let_def
      nth_append list_update_append list_update_swap)

lemma readMore_keeps:
  assumes f: "\<And>q x. f (q\<lparr>content := x\<rparr>) = f q" "\<And>q x. f (q\<lparr>size_p := x\<rparr>) = f q"
    "\<And>q x. f (q\<lparr>line := x\<rparr>) = f q"
  shows "readMore p = (p', e) \<Longrightarrow> f p' = f p"
proof (induction p arbitrary: p' e rule: readMore.induct)
  case (1 p)
  obtain rd tline pfx err where R: "ReadLine (content p) = (rd, tline, pfx, err)"
    by (metis prod_cases4)
  show ?case
  proof (cases "err \<noteq> None \<and> err \<noteq> Some EOF")
    case True
    with "1.prems" R f show ?thesis
      by (auto simp: readMore.simps [of p])
  next
    case False
    let ?p2 = "p\<lparr>content := rd, size_p := size_p p + int (length tline)\<rparr>"
    show ?thesis
    proof (cases "checkSize ?p2")
      case (Some e')
      with "1.prems" R False f show ?thesis
        by (auto simp: readMore.simps [of p] Let_def)
    next
      case None
      show ?thesis
      proof (cases pfx)
        case True
        let ?p3 = "?p2\<lparr>line := line ?p2 @ tline\<rparr>"
        from "1.prems" R False None True have rm: "readMore ?p3 = (p', e)"
          by (auto simp: readMore.simps [of p] Let_def)
        have "f p' = f ?p3"
          using "1.IH" [OF R [symmetric] refl refl refl False refl _ refl True, of p' e] None rm
          by simp
        with f show ?thesis by simp
      next
        case pf: False
        with "1.prems" R False None f show ?thesis
          by (auto simp: readMore.simps [of p] Let_def)
      qed
    qed
  qed
qed

lemma nextLine_keeps:
  assumes f: "\<And>q x. f (q\<lparr>content := x\<rparr>) = f q" "\<And>q x. f (q\<lparr>size_p := x\<rparr>) = f q"
    "\<And>q x. f (q\<lparr>line := x\<rparr>) = f q" "\<And>q x. f (q\<lparr>lineno := x\<rparr>) = f q"
    and nl: "nextLine p = (p', e)"
  shows "f p' = f p"
proof -
  obtain rd l pfx err where R: "ReadLine (content p) = (rd, l, pfx, err)"
    by (metis prod_cases4)
  let ?p2 = "p\<lparr>content := rd, line := l, size_p := size_p p + int (length l)\<rparr>"
  obtain p3 e3 where rm: "readMore ?p2 = (p3, e3)" by (metis surj_pair)
  have "f p3 = f ?p2" using readMore_keeps [of f, OF f(1,2,3) rm] .
  with f have "f p3 = f p" by simp
  with nl R rm f show ?thesis
    by (auto simp: nextLine_def Let_def split: option.splits if_splits)
qed

lemma nextLine_heightLimit: "nextLine p = (p', e) \<Longrightarrow> heightLimit p' = heightLimit p"
  by (rule nextLine_keeps [of heightLimit]) simp_all

lemma nextLine_sizeLimit: "nextLine p = (p', e) \<Longrightarrow> sizeLimit p' = sizeLimit p"
  by (rule nextLine_keeps [of sizeLimit]) simp_all

lemma rounds_heightLimit:
  "rounds n (p, h, stack, c) = Some (p1, h1, stack1, c1) \<Longrightarrow> heightLimit p1 = heightLimit p"
proof (induction n arbitrary: p h stack c)
  case 0
  then show ?case by simp
next
  case (Suc n)
  then obtain q k st d where r: "round p h stack c = Some (q, k, st, d)"
    and rs: "rounds n (q, k, st, d) = Some (p1, h1, stack1, c1)"
    by (auto split: option.splits)
  from r have "heightLimit q = heightLimit p"
    by (auto simp: round_Some dest: nextLine_heightLimit)
  with Suc.IH [OF rs] show ?case by simp
qed

text \<open>Below a height limit \<open>N\<close> the stack never holds more than \<open>N + 1\<close> nodes.\<close>

lemma loopBody_depth:
  assumes "loopBody p h stack c = (h', stack', c', err, False)"
    and "heightLimit p \<noteq> - 1" and "int (length stack) \<le> heightLimit p + 1"
  shows "int (length stack') \<le> heightLimit p + 1"
  using assms
  by (auto simp: loopBody_def buildNode_def newConfig_def Let_def checkHeight_def
      split: option.splits if_splits prod.splits)

lemma rounds_depth:
  "rounds n (p, h, stack, c) = Some (p1, h1, stack1, c1) \<Longrightarrow> heightLimit p \<noteq> - 1 \<Longrightarrow>
   int (length stack) \<le> heightLimit p + 1 \<Longrightarrow> int (length stack1) \<le> heightLimit p + 1"
proof (induction n arbitrary: p h stack c)
  case 0
  then show ?case by simp
next
  case (Suc n)
  then obtain q k st d where r: "round p h stack c = Some (q, k, st, d)"
    and rs: "rounds n (q, k, st, d) = Some (p1, h1, stack1, c1)"
    by (auto split: option.splits)
  from r obtain err where nl: "nextLine p = (q, None)"
    and lb: "loopBody q h stack c = (k, st, d, err, False)"
    by (auto simp: round_Some)
  have hl: "heightLimit q = heightLimit p" using nextLine_heightLimit [OF nl] .
  from loopBody_depth [OF lb] hl Suc.prems have "int (length st) \<le> heightLimit q + 1" by simp
  from Suc.IH [OF rs _ this] hl Suc.prems show ?case by simp
qed

lemma NewParser_HeightLimit:
  "NewParser rd [HeightLimit N] = Inr p0 \<longleftrightarrow>
   0 < N \<and> p0 = (defaultParser rd)\<lparr>heightLimit := N\<rparr>"
  by (auto simp: NewParser_def HeightLimit_def)

text \<open>
  A worked input under a height limit of 2: the lines \<open>a:\<close>, \<open>b:\<close>, \<open>c:\<close>.
\<close>

lemma ex_depth_run:
  "rounds 2 ((defaultParser (linesReader [''a:'', ''b:'', ''c:'']))\<lparr>heightLimit := 2\<rparr>,
            rootHeap, [0], 0) =
     Some (\<lparr>content = \<lparr>pending = [(''c:'', False)], final = EOF\<rparr>, line = ''b:'',
             lineno = 2, size_p = 4, heightLimit = 2, sizeLimit = - 1\<rparr>,
           [\<lparr>name = ''__root__'', value_c = [1]\<rparr>, \<lparr>name = ''a'', value_c = [2]\<rparr>,
            \<lparr>name = ''b'', value_c = []\<rparr>], [0, 1, 2], 2)"
  by (simp add: eval_defs eval_nat_numeral)

lemma ex_depth_nextLine:
  "nextLine \<lparr>content = \<lparr>pending = [(''c:'', False)], final = EOF\<rparr>, line = ''b:'',
             lineno = 2, size_p = 4, heightLimit = 2, sizeLimit = - 1\<rparr> =
     (\<lparr>content = \<lparr>pending = [], final = EOF\<rparr>, line = ''c:'', lineno = 3,
        size_p = 6, heightLimit = 2, sizeLimit = - 1\<rparr>, None)"
  by (simp add: eval_defs)

lemma ex_depth_scanLine: "scanLine ''c:'' = Some (0, 1, CHR '':'', False, - 1)"
  by (simp add: eval_defs)

lemma ex_accept_run:
  "rounds 1 ((defaultParser (linesReader [''a:'', ''b:'', ''c:'']))\<lparr>heightLimit := 2\<rparr>,
            rootHeap, [0], 0) =
     Some (\<lparr>content = \<lparr>pending = [(''b:'', False), (''c:'', False)], final = EOF\<rparr>,
             line = ''a:'', lineno = 1, size_p = 2, heightLimit = 2, sizeLimit = - 1\<rparr>,
           [\<lparr>name = ''__root__'', value_c = [1]\<rparr>, \<lparr>name = ''a'', value_c = []\<rparr>],
           [0, 1], 1)"
  by (simp add: eval_defs)

lemma ex_accept_nextLine:
  "nextLine \<lparr>content = \<lparr>pending = [(''b:'', False), (''c:'', False)], final = EOF\<rparr>,
             line = ''a:'', lineno = 1, size_p = 2, heightLimit = 2, sizeLimit = - 1\<rparr> =
     (\<lparr>content = \<lparr>pending = [(''c:'', False)], final = EOF\<rparr>, line = ''b:'',
        lineno = 2, size_p = 4, heightLimit = 2, sizeLimit = - 1\<rparr>, None)"
  by (simp add: eval_defs)

lemma ex_accept_scanLine: "scanLine ''b:'' = Some (0, 1, CHR '':'', False, - 1)"
  by (simp add: eval_defs)

section \<open>Reading and the byte counter\<close>

lemma fragBytes_nonneg: "0 \<le> fragBytes frs"
  by (induction frs rule: fragBytes.induct) auto

lemma fragBytes_lineFrags_le: "fragBytes (lineFrags frs) \<le> fragBytes frs"
  by (induction frs rule: lineFrags.induct) (auto simp: fragBytes_nonneg)

lemma readMore_unfold:
  "readMore p =
     (case pending (content p) of
        [] \<Rightarrow>
          (if final (content p) \<noteq> EOF then (p, Some (final (content p)))
           else (case checkSize p of
                   Some e \<Rightarrow> (p, Some e)
                 | None \<Rightarrow> (p, None)))
      | (l, pfx) # rest \<Rightarrow>
          (let p2 = p\<lparr>content := (content p)\<lparr>pending := rest\<rparr>,
                       size_p := size_p p + int (length l)\<rparr>
           in case checkSize p2 of
                Some e \<Rightarrow> (p2, Some e)
              | None \<Rightarrow>
                  if pfx then readMore (p2\<lparr>line := line p @ l\<rparr>)
                  else (p2\<lparr>line := line p @ l\<rparr>, None)))"
  by (subst readMore.simps)
     (auto simp: ReadLine_def Let_def checkSize_def split: list.splits option.splits)

lemma nextLine_unfold:
  "nextLine p =
     (case pending (content p) of
        [] \<Rightarrow> (p\<lparr>line := []\<rparr>, Some (final (content p)))
      | (l, pfx) # rest \<Rightarrow>
          (let p2 = p\<lparr>content := (content p)\<lparr>pending := rest\<rparr>, line := l,
                       size_p := size_p p + int (length l)\<rparr>
           in case checkSize p2 of
                Some e \<Rightarrow> (p2, Some e)
              | None \<Rightarrow>
                  if pfx then
                    (case readMore p2 of
                       (p3, Some e) \<Rightarrow> (p3, Some e)
                     | (p3, None) \<Rightarrow> (p3\<lparr>lineno := lineno p3 + 1\<rparr>, None))
                  else (p2\<lparr>lineno := lineno p2 + 1\<rparr>, None)))"
  by (auto simp: nextLine_def ReadLine_def Let_def split: list.splits option.splits)

lemma readMore_conserves:
  "pending (content p) = frs \<Longrightarrow> readMore p = (p', e) \<Longrightarrow>
   size_p p' + fragBytes (pending (content p')) = size_p p + fragBytes frs"
proof (induction frs arbitrary: p)
  case Nil
  then show ?case
    by (subst (asm) readMore_unfold) (auto split: if_splits option.splits)
next
  case (Cons fr rest)
  obtain l pfx where fr: "fr = (l, pfx)" by (cases fr)
  let ?p2 = "p\<lparr>content := (content p)\<lparr>pending := rest\<rparr>, size_p := size_p p + int (length l)\<rparr>"
  show ?case
  proof (cases "checkSize ?p2 = None \<and> pfx")
    case True
    with Cons.prems fr have "readMore (?p2\<lparr>line := line p @ l\<rparr>) = (p', e)"
      by (subst (asm) readMore_unfold) (simp add: Let_def)
    from Cons.IH [OF _ this] fr show ?thesis by simp
  next
    case False
    with Cons.prems fr show ?thesis
      by (subst (asm) readMore_unfold) (auto simp: Let_def split: option.splits if_splits)
  qed
qed

lemma nextLine_conserves:
  assumes "nextLine p = (p', e)"
  shows "size_p p' + fragBytes (pending (content p')) =
         size_p p + fragBytes (pending (content p))"
proof (cases "pending (content p)")
  case Nil
  with assms show ?thesis by (auto simp: nextLine_unfold)
next
  case (Cons fr rest)
  obtain l pfx where fr: "fr = (l, pfx)" by (cases fr)
  let ?p2 = "p\<lparr>content := (content p)\<lparr>pending := rest\<rparr>, line := l,
               size_p := size_p p + int (length l)\<rparr>"
  show ?thesis
  proof (cases "checkSize ?p2 = None \<and> pfx")
    case True
    obtain p3 e3 where rm: "readMore ?p2 = (p3, e3)" by (metis surj_pair)
    from readMore_conserves [OF _ rm, of rest]
    have "size_p p3 + fragBytes (pending (content p3)) = size_p p + int (length l) + fragBytes rest"
      by simp
    with assms Cons fr True rm show ?thesis
      by (auto simp: nextLine_unfold Let_def split: option.splits)
  next
    case False
    with assms Cons fr show ?thesis
      by (auto simp: nextLine_unfold Let_def split: option.splits if_splits)
  qed
qed

lemma rounds_conserves:
  "rounds n (p, h, stack, c) = Some (p1, h1, stack1, c1) \<Longrightarrow>
   size_p p1 + fragBytes (pending (content p1)) = size_p p + fragBytes (pending (content p))"
proof (induction n arbitrary: p h stack c)
  case 0
  then show ?case by simp
next
  case (Suc n)
  then obtain q k st d where r: "round p h stack c = Some (q, k, st, d)"
    and rs: "rounds n (q, k, st, d) = Some (p1, h1, stack1, c1)"
    by (auto split: option.splits)
  from r have "nextLine p = (q, None)" by (auto simp: round_Some)
  from nextLine_conserves [OF this] Suc.IH [OF rs] show ?case by simp
qed

text \<open>The size check of one logical line.\<close>

lemma readMore_size:
  "pending (content p) = frs \<Longrightarrow> sizeLimit p = M \<Longrightarrow> M \<noteq> - 1 \<Longrightarrow> size_p p < M \<Longrightarrow>
   (M \<le> size_p p + fragBytes (lineFrags frs) \<longrightarrow>
      snd (readMore p) = Some (ConfigError (sizeMsg M) (lineno p) 0)) \<and>
   (size_p p + fragBytes (lineFrags frs) < M \<longrightarrow>
      snd (readMore p) = None \<or> snd (readMore p) = Some (final (content p)))"
proof (induction frs arbitrary: p)
  case Nil
  then show ?case
    by (subst readMore_unfold, subst readMore_unfold, subst readMore_unfold)
       (auto simp: checkSize_def split: option.splits)
next
  case (Cons fr rest)
  obtain l pfx where fr: "fr = (l, pfx)" by (cases fr)
  let ?p2 = "p\<lparr>content := (content p)\<lparr>pending := rest\<rparr>, size_p := size_p p + int (length l)\<rparr>"
  let ?p3 = "?p2\<lparr>line := line p @ l\<rparr>"
  have nn: "0 \<le> fragBytes (lineFrags rest)" by (rule fragBytes_nonneg)
  show ?case
  proof (cases "M \<le> size_p p + int (length l)")
    case True
    with Cons.prems fr have cs: "checkSize ?p2 = Some (ConfigError (sizeMsg M) (lineno p) 0)"
      by (simp add: checkSize_def)
    have "readMore p = (?p2, Some (ConfigError (sizeMsg M) (lineno p) 0))"
      using Cons.prems(1) fr cs by (subst readMore_unfold) (simp add: Let_def)
    with True nn fr show ?thesis by auto
  next
    case False
    with Cons.prems fr have cs: "checkSize ?p2 = None"
      by (simp add: checkSize_def)
    show ?thesis
    proof (cases pfx)
      case True
      have rm: "readMore p = readMore ?p3"
        using Cons.prems(1) fr cs True by (subst readMore_unfold) (simp add: Let_def)
      have "pending (content ?p3) = rest" "sizeLimit ?p3 = M" "size_p ?p3 < M"
        using Cons.prems False by simp_all
      from Cons.IH [OF this(1,2) Cons.prems(3) this(3)] rm fr True show ?thesis
        by (simp add: add.assoc)
    next
      case pf: False
      have "readMore p = (?p3, None)"
        using Cons.prems(1) fr cs pf by (subst readMore_unfold) (simp add: Let_def)
      with False fr pf show ?thesis by simp
    qed
  qed
qed

lemma nextLine_size:
  assumes "sizeLimit p = M" and "M \<noteq> - 1" and "pending (content p) \<noteq> []"
  shows "(M \<le> size_p p + fragBytes (lineFrags (pending (content p))) \<longrightarrow>
            snd (nextLine p) = Some (ConfigError (sizeMsg M) (lineno p) 0)) \<and>
         (size_p p + fragBytes (lineFrags (pending (content p))) < M \<longrightarrow>
            snd (nextLine p) = None \<or> snd (nextLine p) = Some (final (content p)))"
proof -
  from assms(3) obtain l pfx rest where pd: "pending (content p) = (l, pfx) # rest"
    by (cases "pending (content p)") auto
  let ?p2 = "p\<lparr>content := (content p)\<lparr>pending := rest\<rparr>, line := l,
               size_p := size_p p + int (length l)\<rparr>"
  have nn: "0 \<le> fragBytes (lineFrags rest)" by (rule fragBytes_nonneg)
  show ?thesis
  proof (cases "M \<le> size_p p + int (length l)")
    case True
    with assms have cs: "checkSize ?p2 = Some (ConfigError (sizeMsg M) (lineno p) 0)"
      by (simp add: checkSize_def)
    have "nextLine p = (?p2, Some (ConfigError (sizeMsg M) (lineno p) 0))"
      using pd cs by (simp add: nextLine_unfold Let_def)
    with True nn pd show ?thesis by auto
  next
    case False
    with assms have cs: "checkSize ?p2 = None"
      by (simp add: checkSize_def)
    show ?thesis
    proof (cases pfx)
      case True
      have nl: "snd (nextLine p) = snd (readMore ?p2)"
        using pd cs True by (auto simp: nextLine_unfold Let_def split: prod.splits option.splits)
      have "pending (content ?p2) = rest" "sizeLimit ?p2 = M" "size_p ?p2 < M"
        using assms False by simp_all
      from readMore_size [OF this(1,2) assms(2) this(3)] nl pd True show ?thesis
        by (simp add: add.assoc)
    next
      case pf: False
      have "nextLine p = (?p2\<lparr>lineno := lineno ?p2 + 1\<rparr>, None)"
        using pd cs pf by (simp add: nextLine_unfold Let_def)
      with False pd pf show ?thesis by simp
    qed
  qed
qed

text \<open>Below the limit, reading goes as it does without a limit.\<close>

lemma sizeLimit_outward:
  "p\<lparr>sizeLimit := x, content := c\<rparr> = p\<lparr>content := c, sizeLimit := x\<rparr>"
  "p\<lparr>sizeLimit := x, line := l\<rparr> = p\<lparr>line := l, sizeLimit := x\<rparr>"
  "p\<lparr>sizeLimit := x, size_p := n\<rparr> = p\<lparr>size_p := n, sizeLimit := x\<rparr>"
  "p\<lparr>sizeLimit := x, lineno := k\<rparr> = p\<lparr>lineno := k, sizeLimit := x\<rparr>"
  by simp_all

lemma readMore_unlimited:
  "pending (content p) = frs \<Longrightarrow> size_p p + fragBytes frs < sizeLimit p \<Longrightarrow>
   readMore (p\<lparr>sizeLimit := - 1\<rparr>) =
     (case readMore p of (p', e) \<Rightarrow> (p'\<lparr>sizeLimit := - 1\<rparr>, e))"
proof (induction frs arbitrary: p)
  case Nil
  then show ?case
    by (subst readMore_unfold, subst (2) readMore_unfold)
       (auto simp: checkSize_def split: option.splits)
next
  case (Cons fr rest)
  obtain l pfx where fr: "fr = (l, pfx)" by (cases fr)
  let ?p2 = "p\<lparr>content := (content p)\<lparr>pending := rest\<rparr>, size_p := size_p p + int (length l)\<rparr>"
  let ?p3 = "?p2\<lparr>line := line p @ l\<rparr>"
  have nn: "0 \<le> fragBytes rest" by (rule fragBytes_nonneg)
  with Cons.prems fr have cs: "checkSize ?p2 = None" "checkSize (?p2\<lparr>sizeLimit := - 1\<rparr>) = None"
    by (simp_all add: checkSize_def)
  show ?case
  proof (cases pfx)
    case True
    have a: "readMore p = readMore ?p3"
      using Cons.prems(1) fr cs True by (subst readMore_unfold) (simp add: Let_def)
    have b: "readMore (p\<lparr>sizeLimit := - 1\<rparr>) = readMore (?p3\<lparr>sizeLimit := - 1\<rparr>)"
      using Cons.prems(1) fr cs True
      by (subst readMore_unfold) (simp add: Let_def checkSize_def sizeLimit_outward)
    have "pending (content ?p3) = rest" "size_p ?p3 + fragBytes rest < sizeLimit ?p3"
      using Cons.prems fr by simp_all
    from Cons.IH [OF this] a b show ?thesis by simp
  next
    case False
    have a: "readMore p = (?p3, None)"
      using Cons.prems(1) fr cs False by (subst readMore_unfold) (simp add: Let_def)
    have b: "readMore (p\<lparr>sizeLimit := - 1\<rparr>) = (?p3\<lparr>sizeLimit := - 1\<rparr>, None)"
      using Cons.prems(1) fr cs False
      by (subst readMore_unfold) (simp add: Let_def checkSize_def sizeLimit_outward)
    from a b show ?thesis by simp
  qed
qed

lemma nextLine_unlimited:
  assumes "size_p p + fragBytes (pending (content p)) < sizeLimit p"
  shows "nextLine (p\<lparr>sizeLimit := - 1\<rparr>) =
           (case nextLine p of (p', e) \<Rightarrow> (p'\<lparr>sizeLimit := - 1\<rparr>, e))"
proof (cases "pending (content p)")
  case Nil
  then show ?thesis by (simp add: nextLine_unfold)
next
  case (Cons fr rest)
  obtain l pfx where fr: "fr = (l, pfx)" by (cases fr)
  let ?p2 = "p\<lparr>content := (content p)\<lparr>pending := rest\<rparr>, line := l,
               size_p := size_p p + int (length l)\<rparr>"
  have nn: "0 \<le> fragBytes rest" by (rule fragBytes_nonneg)
  with assms Cons fr have cs: "checkSize ?p2 = None" "checkSize (?p2\<lparr>sizeLimit := - 1\<rparr>) = None"
    by (simp_all add: checkSize_def)
  have "pending (content ?p2) = rest" "size_p ?p2 + fragBytes rest < sizeLimit ?p2"
    using assms Cons fr by simp_all
  note rm = readMore_unlimited [OF this]
  show ?thesis
    using Cons fr cs rm
    by (auto simp: nextLine_unfold [of p] nextLine_unfold [of "p\<lparr>sizeLimit := - 1\<rparr>"] Let_def
        checkSize_def sizeLimit_outward split: prod.splits option.splits)
qed

lemma buildNode_sizeLimit:
  "buildNode (p\<lparr>sizeLimit := x\<rparr>) h stack c sc = buildNode p h stack c sc"
  by (cases sc) (simp add: buildNode_def Let_def checkHeight_def newConfig_def)

lemma loopBody_sizeLimit: "loopBody (p\<lparr>sizeLimit := x\<rparr>) h stack c = loopBody p h stack c"
  by (simp add: loopBody_def buildNode_sizeLimit split: option.splits)

lemma iterLoop_unlimited:
  "size_p p + fragBytes (pending (content p)) < sizeLimit p \<Longrightarrow>
   iterLoop (p\<lparr>sizeLimit := - 1\<rparr>) h stack c =
     (case iterLoop p h stack c of (p', h', st, e) \<Rightarrow> (p'\<lparr>sizeLimit := - 1\<rparr>, h', st, e))"
proof (induction p h stack c rule: iterLoop_rounds)
  case (round p h stack c)
  obtain p1 e1 where nl: "nextLine p = (p1, e1)" by (metis surj_pair)
  from nextLine_unlimited [OF round.prems] nl
  have nl': "nextLine (p\<lparr>sizeLimit := - 1\<rparr>) = (p1\<lparr>sizeLimit := - 1\<rparr>, e1)" by simp
  show ?case
  proof (cases e1)
    case (Some e)
    with nl nl' show ?thesis by (simp add: iterLoop_err)
  next
    case None
    obtain h1 stack1 c1 err1 brk where lb: "loopBody p1 h stack c = (h1, stack1, c1, err1, brk)"
      by (metis prod_cases5)
    then have lb': "loopBody (p1\<lparr>sizeLimit := - 1\<rparr>) h stack c = (h1, stack1, c1, err1, brk)"
      by (simp add: loopBody_sizeLimit)
    show ?thesis
    proof (cases brk)
      case True
      with nl nl' None lb lb' show ?thesis by (simp add: iterLoop_break)
    next
      case False
      with nl nl' None lb lb' have n1: "nextLine p = (p1, None)"
        and b1: "loopBody p1 h stack c = (h1, stack1, c1, err1, False)"
        and n2: "nextLine (p\<lparr>sizeLimit := - 1\<rparr>) = (p1\<lparr>sizeLimit := - 1\<rparr>, None)"
        and b2: "loopBody (p1\<lparr>sizeLimit := - 1\<rparr>) h stack c = (h1, stack1, c1, err1, False)"
        by simp_all
      have "size_p p1 + fragBytes (pending (content p1)) < sizeLimit p1"
        using nextLine_conserves [OF n1] nextLine_sizeLimit [OF n1] round.prems by simp
      from round.IH [OF n1 b1 this] iterLoop_cont [OF n1 b1] iterLoop_cont [OF n2 b2]
      show ?thesis by simp
    qed
  qed
qed

lemma finish_sizeLimit: "finish (p\<lparr>sizeLimit := x\<rparr>) stack err = finish p stack err"
  by (simp add: finish_def)

lemma ParseConfig_unlimited:
  assumes "size_p p + fragBytes (pending (content p)) < sizeLimit p"
  shows "ParseConfig (p\<lparr>sizeLimit := - 1\<rparr>) =
           (case ParseConfig p of (p', h', root, e) \<Rightarrow> (p'\<lparr>sizeLimit := - 1\<rparr>, h', root, e))"
proof -
  obtain p' h' st e where il: "iterLoop p rootHeap [0] 0 = (p', h', st, e)"
    by (metis prod_cases4)
  with iterLoop_unlimited [OF assms, of rootHeap "[0]" 0]
  have "iterLoop (p\<lparr>sizeLimit := - 1\<rparr>) rootHeap [0] 0 = (p'\<lparr>sizeLimit := - 1\<rparr>, h', st, e)"
    by simp
  from ParseConfig_iterLoop [OF this] ParseConfig_iterLoop [OF il] show ?thesis
    by (simp add: finish_sizeLimit)
qed

lemma rounds_sizeLimit:
  "rounds n (p, h, stack, c) = Some (p1, h1, stack1, c1) \<Longrightarrow> sizeLimit p1 = sizeLimit p"
proof (induction n arbitrary: p h stack c)
  case 0
  then show ?case by simp
next
  case (Suc n)
  then obtain q k st d where r: "round p h stack c = Some (q, k, st, d)"
    and rs: "rounds n (q, k, st, d) = Some (p1, h1, stack1, c1)"
    by (auto split: option.splits)
  from r have "sizeLimit q = sizeLimit p"
    by (auto simp: round_Some dest: nextLine_sizeLimit)
  with Suc.IH [OF rs] show ?case by simp
qed

lemma fragBytes_append: "fragBytes (xs @ ys) = fragBytes xs + fragBytes ys"
  by (induction xs rule: fragBytes.induct) auto

lemma fragBytes_lines: "fragBytes (map (\<lambda>l. (l, False)) ls) = int (sum_list (map length ls))"
  by (induction ls) auto

lemma length_dropCR: "length (dropCR l) \<le> length l"
  by (simp add: dropCR_def)

lemma set_dropCR: "set (dropCR l) \<subseteq> set l"
  by (auto simp: dropCR_def dest: in_set_butlastD)

lemma bufioLines_no_newline:
  "newline \<notin> set cur \<Longrightarrow> l \<in> set (bufioLines cur bs) \<Longrightarrow> newline \<notin> set l"
proof (induction cur bs rule: bufioLines.induct)
  case (1 cur)
  then show ?case by (auto split: if_splits)
next
  case (2 cur b bs)
  then show ?case using set_dropCR [of cur] by (auto split: if_splits)
qed

lemma bufioLines_bytes:
  "sum_list (map length (bufioLines cur bs)) + count_list bs newline \<le> length cur + length bs"
proof (induction cur bs rule: bufioLines.induct)
  case (1 cur)
  then show ?case by simp
next
  case (2 cur b bs)
  then show ?case using length_dropCR [of cur] by (auto split: if_splits)
qed

text \<open>A read that succeeds adds the length of the logical line to the counter.\<close>

lemma readMore_line:
  "pending (content p) = frs \<Longrightarrow> readMore p = (p', None) \<Longrightarrow>
   size_p p' - int (length (line p')) = size_p p - int (length (line p))"
proof (induction frs arbitrary: p)
  case Nil
  then show ?case
    by (subst (asm) readMore_unfold) (auto split: if_splits option.splits)
next
  case (Cons fr rest)
  obtain l pfx where fr: "fr = (l, pfx)" by (cases fr)
  let ?p2 = "p\<lparr>content := (content p)\<lparr>pending := rest\<rparr>, size_p := size_p p + int (length l)\<rparr>"
  show ?case
  proof (cases "checkSize ?p2 = None \<and> pfx")
    case True
    with Cons.prems fr have "readMore (?p2\<lparr>line := line p @ l\<rparr>) = (p', None)"
      by (subst (asm) readMore_unfold) (simp add: Let_def)
    from Cons.IH [OF _ this] show ?thesis by simp
  next
    case False
    with Cons.prems fr show ?thesis
      by (subst (asm) readMore_unfold) (auto simp: Let_def split: option.splits if_splits)
  qed
qed

lemma nextLine_line:
  assumes "nextLine p = (p', None)"
  shows "size_p p' = size_p p + int (length (line p'))"
proof (cases "pending (content p)")
  case Nil
  with assms show ?thesis by (auto simp: nextLine_unfold)
next
  case (Cons fr rest)
  obtain l pfx where fr: "fr = (l, pfx)" by (cases fr)
  let ?p2 = "p\<lparr>content := (content p)\<lparr>pending := rest\<rparr>, line := l,
               size_p := size_p p + int (length l)\<rparr>"
  show ?thesis
  proof (cases "checkSize ?p2 = None \<and> pfx")
    case True
    obtain p3 e3 where rm: "readMore ?p2 = (p3, e3)" by (metis surj_pair)
    with assms Cons fr True have e3: "e3 = None" and p': "p' = p3\<lparr>lineno := lineno p3 + 1\<rparr>"
      by (auto simp: nextLine_unfold Let_def split: option.splits)
    from readMore_line [OF _ rm [unfolded e3], of rest] p' show ?thesis by simp
  next
    case False
    with assms Cons fr show ?thesis
      by (auto simp: nextLine_unfold Let_def split: option.splits if_splits)
  qed
qed

text \<open>What has been read is a prefix of what the reader held.\<close>

lemma readMore_read:
  "pending (content p) = frs \<Longrightarrow> readMore p = (p', e) \<Longrightarrow>
   \<exists>rd. frs = rd @ pending (content p') \<and> size_p p' = size_p p + fragBytes rd"
proof (induction frs arbitrary: p)
  case Nil
  then show ?case
    by (subst (asm) readMore_unfold) (auto split: if_splits option.splits)
next
  case (Cons fr rest)
  obtain l pfx where fr: "fr = (l, pfx)" by (cases fr)
  let ?p2 = "p\<lparr>content := (content p)\<lparr>pending := rest\<rparr>, size_p := size_p p + int (length l)\<rparr>"
  show ?case
  proof (cases "checkSize ?p2 = None \<and> pfx")
    case True
    with Cons.prems fr have "readMore (?p2\<lparr>line := line p @ l\<rparr>) = (p', e)"
      by (subst (asm) readMore_unfold) (simp add: Let_def)
    from Cons.IH [OF _ this] obtain rd where
      "rest = rd @ pending (content p')" "size_p p' = size_p p + int (length l) + fragBytes rd"
      by auto
    with fr have "fr # rest = (fr # rd) @ pending (content p') \<and>
        size_p p' = size_p p + fragBytes (fr # rd)" by simp
    then show ?thesis by blast
  next
    case False
    with Cons.prems fr have "fr # rest = [fr] @ pending (content p') \<and>
        size_p p' = size_p p + fragBytes [fr]"
      by (subst (asm) readMore_unfold) (auto simp: Let_def split: option.splits if_splits)
    then show ?thesis by blast
  qed
qed

lemma nextLine_read:
  assumes "nextLine p = (p', e)"
  shows "\<exists>rd. pending (content p) = rd @ pending (content p') \<and>
              size_p p' = size_p p + fragBytes rd"
proof (cases "pending (content p)")
  case Nil
  with assms show ?thesis by (auto simp: nextLine_unfold)
next
  case (Cons fr rest)
  obtain l pfx where fr: "fr = (l, pfx)" by (cases fr)
  let ?p2 = "p\<lparr>content := (content p)\<lparr>pending := rest\<rparr>, line := l,
               size_p := size_p p + int (length l)\<rparr>"
  show ?thesis
  proof (cases "checkSize ?p2 = None \<and> pfx")
    case True
    obtain p3 e3 where rm: "readMore ?p2 = (p3, e3)" by (metis surj_pair)
    from readMore_read [OF _ rm, of rest] obtain rd where
      rd: "rest = rd @ pending (content p3)" "size_p p3 = size_p p + int (length l) + fragBytes rd"
      by auto
    from assms Cons fr True rm have "pending (content p') = pending (content p3)"
      "size_p p' = size_p p3"
      by (auto simp: nextLine_unfold Let_def split: option.splits)
    with rd Cons fr have "pending (content p) = (fr # rd) @ pending (content p') \<and>
        size_p p' = size_p p + fragBytes (fr # rd)" by simp
    then show ?thesis by blast
  next
    case False
    with assms Cons fr have "pending (content p) = [fr] @ pending (content p') \<and>
        size_p p' = size_p p + fragBytes [fr]"
      by (auto simp: nextLine_unfold Let_def split: option.splits if_splits)
    then show ?thesis by blast
  qed
qed

lemma rounds_read:
  "rounds n (p, h, stack, c) = Some (p1, h1, stack1, c1) \<Longrightarrow>
   \<exists>rd. pending (content p) = rd @ pending (content p1) \<and> size_p p1 = size_p p + fragBytes rd"
proof (induction n arbitrary: p h stack c)
  case 0
  then have "pending (content p) = [] @ pending (content p1) \<and> size_p p1 = size_p p + fragBytes []"
    by simp
  then show ?case by blast
next
  case (Suc n)
  then obtain q k st d where r: "round p h stack c = Some (q, k, st, d)"
    and rs: "rounds n (q, k, st, d) = Some (p1, h1, stack1, c1)"
    by (auto split: option.splits)
  from r have "nextLine p = (q, None)" by (auto simp: round_Some)
  from nextLine_read [OF this] obtain r1 where
    r1: "pending (content p) = r1 @ pending (content q)" "size_p q = size_p p + fragBytes r1"
    by auto
  from Suc.IH [OF rs] obtain r2 where
    r2: "pending (content q) = r2 @ pending (content p1)" "size_p p1 = size_p q + fragBytes r2"
    by auto
  from r1 r2 have "pending (content p) = (r1 @ r2) @ pending (content p1) \<and>
      size_p p1 = size_p p + fragBytes (r1 @ r2)"
    by (simp add: fragBytes_append)
  then show ?case by blast
qed

section \<open>Indices stay in range\<close>

text \<open>
  No index and no slice expression of the loop body is out of range: the spans that
  \<open>slice\<close> cuts are the ones Go cuts, and no line makes the body panic.
\<close>

lemma skipBlank_le: "i \<le> length ln \<Longrightarrow> skipBlank ln i \<le> length ln"
  by (induction ln i rule: skipBlank.induct) (subst skipBlank.simps, auto)

lemma skipBlank_ge: "i \<le> skipBlank ln i"
proof (induction ln i rule: skipBlank.induct)
  case (1 ln i)
  then show ?case by (subst skipBlank.simps) (auto simp: Suc_leD)
qed

lemma scanNV_range:
  assumes "s \<le> i" and "found \<longrightarrow> s < i"
    and "nv = - 1 \<or> (int s \<le> nv \<and> nv + 2 \<le> int e)"
  shows "scanNV ln i e nv found = - 1 \<or>
         (int s \<le> scanNV ln i e nv found \<and> scanNV ln i e nv found + 2 \<le> int e)"
  using assms
proof (induction ln i e nv found rule: scanNV.induct)
  case (1 ln i e nv found)
  show ?case
  proof (cases "i < e")
    case False
    with "1.prems" show ?thesis by (subst scanNV.simps, subst scanNV.simps, subst scanNV.simps) simp
  next
    case True
    show ?thesis
    proof (cases "ln ! i = CHR '':''")
      case c: True
      have "scanNV ln i e nv found = scanNV ln (i + 1) e nv True"
        using True c by (subst scanNV.simps) simp
      moreover have "scanNV ln (i + 1) e nv True = - 1 \<or>
         (int s \<le> scanNV ln (i + 1) e nv True \<and> scanNV ln (i + 1) e nv True + 2 \<le> int e)"
        using "1.IH"(1) [OF True c] "1.prems" by simp
      ultimately show ?thesis by simp
    next
      case c: False
      show ?thesis
      proof (cases "found \<and> ln ! i = CHR '' ''")
        case sp: True
        have "scanNV ln i e nv found = scanNV ln (i + 1) e (int i - 1) found"
          using True c sp by (subst scanNV.simps) simp
        moreover have "scanNV ln (i + 1) e (int i - 1) found = - 1 \<or>
           (int s \<le> scanNV ln (i + 1) e (int i - 1) found \<and>
            scanNV ln (i + 1) e (int i - 1) found + 2 \<le> int e)"
          using "1.IH"(2) [OF True c sp] "1.prems" True sp by simp
        ultimately show ?thesis by simp
      next
        case sp: False
        show ?thesis
        proof (cases found)
          case f: True
          have "scanNV ln i e nv found = scanNV ln (i + 1) e nv False"
            using True c sp f by (subst scanNV.simps) simp
          moreover have "scanNV ln (i + 1) e nv False = - 1 \<or>
             (int s \<le> scanNV ln (i + 1) e nv False \<and> scanNV ln (i + 1) e nv False + 2 \<le> int e)"
            using "1.IH"(3) [OF True c sp f] "1.prems" by simp
          ultimately show ?thesis by simp
        next
          case f: False
          have "scanNV ln i e nv found = scanNV ln (i + 1) e nv found"
            using True c sp f by (subst scanNV.simps) simp
          moreover have "scanNV ln (i + 1) e nv found = - 1 \<or>
             (int s \<le> scanNV ln (i + 1) e nv found \<and> scanNV ln (i + 1) e nv found + 2 \<le> int e)"
            using "1.IH"(4) [OF True c sp f] "1.prems" f by simp
          ultimately show ?thesis by simp
        qed
      qed
    qed
  qed
qed

lemma scanLine_range:
  assumes "scanLine ln = Some (start, end, endToken, fcs, nv)"
  shows "ln \<noteq> [] \<and> start \<le> end \<and> end \<le> length ln \<and> endToken = last ln \<and>
         (nv = - 1 \<or> (int start \<le> nv \<and> nv + 2 \<le> int end))"
proof -
  let ?i = "skipBlank ln 0"
  from assms have lt: "?i < length ln"
    using skipBlank_le [of 0 ln] by (auto simp: scanLine_def Let_def split: if_splits)
  then have ne: "ln \<noteq> []" by auto
  have tok: "endToken = last ln"
    using assms ne by (auto simp: scanLine_def Let_def last_conv_nth split: if_splits)
  have st: "start = (if ln ! ?i = apostrophe then ?i + 1 else ?i)"
    using assms by (auto simp: scanLine_def Let_def split: if_splits)
  have en: "end = (if endToken = CHR '':'' then length ln - 1
                   else if endToken = apostrophe then (if start \<noteq> length ln then length ln - 1 else length ln)
                   else length ln)"
    using assms by (auto simp: scanLine_def Let_def split: if_splits)
  have nvd: "nv = scanNV ln start end (- 1) False"
    using assms by (auto simp: scanLine_def Let_def split: if_splits)
  have se: "start \<le> end"
  proof (cases "start = length ln")
    case True
    with st lt have "ln ! ?i = apostrophe" "?i = length ln - 1" by (auto split: if_splits)
    with tok ne have "endToken = apostrophe" by (simp add: last_conv_nth)
    with en True show ?thesis by (simp add: apostrophe_def)
  next
    case False
    with st lt have "start \<le> length ln - 1" by (auto split: if_splits)
    with en show ?thesis by (auto split: if_splits)
  qed
  have el: "end \<le> length ln" using en by (auto split: if_splits)
  from scanNV_range [of start start False "- 1" "end" ln] nvd
  have "nv = - 1 \<or> (int start \<le> nv \<and> nv + 2 \<le> int end)" by simp
  with ne se el tok show ?thesis by simp
qed

section \<open>The store stays closed\<close>

lemma closedHeap_iff:
  "closedHeap h \<longleftrightarrow> (\<forall>i < length h. \<forall>b \<in> set (value_c (h ! i)). b < length h)"
proof
  assume "closedHeap h"
  then show "\<forall>i < length h. \<forall>b \<in> set (value_c (h ! i)). b < length h"
    by (auto simp: closedHeap_def list_all_iff)
next
  assume r: "\<forall>i < length h. \<forall>b \<in> set (value_c (h ! i)). b < length h"
  show "closedHeap h"
    unfolding closedHeap_def list_all_iff
  proof (intro ballI)
    fix cell a
    assume "cell \<in> set h" and a: "a \<in> set (value_c cell)"
    then obtain i where "i < length h" "cell = h ! i" by (auto simp: in_set_conv_nth)
    with r a show "a < length h" by blast
  qed
qed

lemma closedHeap_nth:
  "closedHeap h \<Longrightarrow> a < length h \<Longrightarrow> b \<in> set (value_c (h ! a)) \<Longrightarrow> b < length h"
  by (simp add: closedHeap_iff)

lemma closedHeap_rootHeap: "closedHeap rootHeap"
  by (simp add: closedHeap_iff rootHeap_def)

lemma closedHeap_alloc: "closedHeap h \<Longrightarrow> closedHeap (h @ [\<lparr>name = n, value_c = []\<rparr>])"
  by (auto simp: closedHeap_iff nth_append less_Suc_eq)

lemma setName_value: "value_c (setName h a n ! i) = value_c (h ! i)"
  by (cases "a < length h"; cases "i = a") (simp_all add: setName_def list_update_beyond)

lemma addValue_value:
  "value_c (addValue h c v ! i) =
     (if i = c \<and> c < length h then value_c (h ! c) @ [v] else value_c (h ! i))"
  by (cases "c < length h"; cases "i = c") (simp_all add: addValue_def list_update_beyond)

lemma closedHeap_setName: "closedHeap h \<Longrightarrow> closedHeap (setName h a n)"
  by (simp add: closedHeap_iff setName_value setName_length)

lemma closedHeap_addValue:
  "closedHeap h \<Longrightarrow> v < length h \<Longrightarrow> closedHeap (addValue h c v)"
  by (auto simp: closedHeap_iff addValue_value addValue_length)

lemma buildNode_closedHeap:
  assumes "buildNode p h stack c sc = (h', stack', c', err, brk)" and "closedHeap h"
  shows "closedHeap h'"
proof -
  obtain start e tok fcs nv where sc: "sc = (start, e, tok, fcs, nv)" by (cases sc)
  let ?h1 = "h @ [\<lparr>name = [], value_c = []\<rparr>]"
  have c1: "closedHeap ?h1" using assms(2) by (rule closedHeap_alloc)
  have l1: "length h < length ?h1" by simp
  have open_: "closedHeap (setName (addValue ?h1 c (length h)) (length h) n)" for n
    by (intro closedHeap_setName closedHeap_addValue c1 l1)
  have leaf: "closedHeap (addValue (setName ?h1 (length h) n) c (length h))" for n
    by (intro closedHeap_addValue closedHeap_setName c1) (simp add: setName_length)
  have pair: "closedHeap (addValue (addValue (setName ?h1 (length h) n @ [\<lparr>name = m, value_c = []\<rparr>])
      (length h) (Suc (length h))) c (length h))" for n m
    by (intro closedHeap_addValue closedHeap_alloc closedHeap_setName c1)
       (simp_all add: setName_length addValue_length)
  show ?thesis
    using assms(1) c1 open_ leaf pair
    by (auto simp: sc buildNode_def newConfig_def Let_def setName_length split: if_splits)
qed

lemma loopBody_closedHeap:
  "loopBody p h stack c = (h', stack', c', err, brk) \<Longrightarrow> closedHeap h \<Longrightarrow> closedHeap h'"
  using buildNode_closedHeap by (auto simp: loopBody_def split: option.splits)

lemma rounds_closedHeap:
  "rounds n (p, h, stack, c) = Some (p1, h1, stack1, c1) \<Longrightarrow> closedHeap h \<Longrightarrow> closedHeap h1"
proof (induction n arbitrary: p h stack c)
  case 0
  then show ?case by simp
next
  case (Suc n)
  then obtain q k st d where r: "round p h stack c = Some (q, k, st, d)"
    and rs: "rounds n (q, k, st, d) = Some (p1, h1, stack1, c1)"
    by (auto split: option.splits)
  from r Suc.prems(2) have "closedHeap k"
    by (auto simp: round_Some dest: loopBody_closedHeap)
  from Suc.IH [OF rs this] show ?case .
qed

lemma tree_of_append:
  "closedHeap h \<Longrightarrow> a < length h \<Longrightarrow> tree_of (h @ [x]) k a = tree_of h k a"
proof (induction k arbitrary: a)
  case 0
  then show ?case by (simp add: nth_append)
next
  case (Suc k)
  have "\<And>b. b \<in> set (value_c (h ! a)) \<Longrightarrow> tree_of (h @ [x]) k b = tree_of h k b"
    using Suc.IH [OF Suc.prems(1)] closedHeap_nth [OF Suc.prems] by blast
  with Suc.prems show ?case by (simp add: nth_append)
qed

text \<open>Every round that ends in the head of the loop has read one logical line.\<close>

lemma readMore_lineno: "readMore p = (p', e) \<Longrightarrow> lineno p' = lineno p"
  by (rule readMore_keeps [of lineno]) simp_all

lemma nextLine_lineno:
  assumes "nextLine p = (p', e)"
  shows "lineno p' = (if e = None then lineno p + 1 else lineno p)"
proof (cases "pending (content p)")
  case Nil
  with assms show ?thesis by (auto simp: nextLine_unfold)
next
  case (Cons fr rest)
  obtain l pfx where fr: "fr = (l, pfx)" by (cases fr)
  let ?p2 = "p\<lparr>content := (content p)\<lparr>pending := rest\<rparr>, line := l,
               size_p := size_p p + int (length l)\<rparr>"
  obtain p3 e3 where rm: "readMore ?p2 = (p3, e3)" by (metis surj_pair)
  from readMore_lineno [OF rm] have "lineno p3 = lineno p" by simp
  with assms Cons fr rm show ?thesis
    by (auto simp: nextLine_unfold Let_def split: option.splits if_splits)
qed

lemma rounds_lineno:
  "rounds n (p, h, stack, c) = Some (p1, h1, stack1, c1) \<Longrightarrow> lineno p1 = lineno p + int n"
proof (induction n arbitrary: p h stack c)
  case 0
  then show ?case by simp
next
  case (Suc n)
  then obtain q k st d where r: "round p h stack c = Some (q, k, st, d)"
    and rs: "rounds n (q, k, st, d) = Some (p1, h1, stack1, c1)"
    by (auto split: option.splits)
  from r have "nextLine p = (q, None)" by (auto simp: round_Some)
  from nextLine_lineno [OF this] Suc.IH [OF rs] show ?case by simp
qed

section \<open>The tests of the repository\<close>

text \<open>
  The inputs of \<open>TestParseConfig\<close>, line by line, with the error that \<open>ParseConfig\<close>
  returns and the tree below the root. The model gives what the tests expect.
\<close>

lemma nextLine_at_end:
  "pending (content p) = [] \<Longrightarrow> nextLine p = (p\<lparr>line := []\<rparr>, Some (final (content p)))"
  by (simp add: nextLine_unfold)

lemma ParseConfig_at_EOF:
  assumes "rounds n (p0, rootHeap, [0], 0) = Some (p, h, stack, c)"
    and "pending (content p) = []" and "final (content p) = EOF"
  shows "ParseConfig p0 = (p\<lparr>line := []\<rparr>, h, 0, finish p stack (Some EOF))"
  using ParseConfig_iterLoop [OF rounds_then_error [OF assms(1), of "p\<lparr>line := []\<rparr>" EOF]]
    nextLine_at_end [OF assms(2)] assms(3)
  by (simp add: finish_def)

text \<open>Basic name-value pair: \<open>test: 123\<close>.\<close>

lemma test_pair:
  "(case ParseConfig (defaultParser (linesReader [''test: 123''])) of
      (p, h, root, err) \<Rightarrow> (err, tree_of h 4 root)) =
     (None,
      Node ''__root__'' [Node ''test'' [Node ''123'' []]])"
proof -
  have run: "rounds 1 ((defaultParser (linesReader [''test: 123''])), rootHeap, [0], 0) =
      Some (\<lparr>content = \<lparr>pending = [], final = EOF\<rparr>, line = ''test: 123'', lineno = 1,
      size_p = 9, heightLimit = - 1, sizeLimit = - 1\<rparr>,
        [\<lparr>name = ''__root__'', value_c = [1]\<rparr>, \<lparr>name = ''test'', value_c = [2]\<rparr>,
            \<lparr>name = ''123'', value_c = []\<rparr>],
        [0], 0)"
    by (simp add: eval_defs eval_nat_numeral)
  from ParseConfig_at_EOF [OF run] show ?thesis
    by (simp add: finish_def eval_nat_numeral)
qed

text \<open>Single value: \<open>test 123\<close>.\<close>

lemma test_single_value:
  "(case ParseConfig (defaultParser (linesReader [''test 123''])) of
      (p, h, root, err) \<Rightarrow> (err, tree_of h 4 root)) =
     (None,
      Node ''__root__'' [Node ''test 123'' []])"
proof -
  have run: "rounds 1 ((defaultParser (linesReader [''test 123''])), rootHeap, [0], 0) =
      Some (\<lparr>content = \<lparr>pending = [], final = EOF\<rparr>, line = ''test 123'', lineno = 1,
      size_p = 8, heightLimit = - 1, sizeLimit = - 1\<rparr>,
        [\<lparr>name = ''__root__'', value_c = [1]\<rparr>,
            \<lparr>name = ''test 123'', value_c = []\<rparr>],
        [0], 0)"
    by (simp add: eval_defs eval_nat_numeral)
  from ParseConfig_at_EOF [OF run] show ?thesis
    by (simp add: finish_def eval_nat_numeral)
qed

text \<open>Multiple values: a group with two leaves.\<close>

lemma test_multiple_value:
  "(case ParseConfig (defaultParser (linesReader [''test 123:'', ''  xyz'', ''  abc'', '':''])) of
      (p, h, root, err) \<Rightarrow> (err, tree_of h 4 root)) =
     (None,
      Node ''__root__'' [Node ''test 123'' [Node ''xyz'' [], Node ''abc'' []]])"
proof -
  have run: "rounds 4 ((defaultParser (linesReader [''test 123:'', ''  xyz'', ''  abc'', '':''])), rootHeap, [0], 0) =
      Some (\<lparr>content = \<lparr>pending = [], final = EOF\<rparr>, line = '':'', lineno = 4,
      size_p = 20, heightLimit = - 1, sizeLimit = - 1\<rparr>,
        [\<lparr>name = ''__root__'', value_c = [1]\<rparr>,
            \<lparr>name = ''test 123'', value_c = [2, 3]\<rparr>, \<lparr>name = ''xyz'', value_c = []\<rparr>,
            \<lparr>name = ''abc'', value_c = []\<rparr>, \<lparr>name = [], value_c = []\<rparr>],
        [0], 0)"
    by (simp add: eval_defs eval_nat_numeral)
  from ParseConfig_at_EOF [OF run] show ?thesis
    by (simp add: finish_def eval_nat_numeral)
qed

text \<open>Leading whitespace, escaped terminator, content start and end markers.\<close>

lemma test_escapes:
  "(case ParseConfig (defaultParser (linesReader [apostrophe # ''    four spaces:'' @ [apostrophe], ''another element:'' @ [apostrophe], apostrophe # ''# not a comment'', [apostrophe, apostrophe], ''x:'' @ [apostrophe]])) of
      (p, h, root, err) \<Rightarrow> (err, tree_of h 4 root)) =
     (None,
      Node ''__root__''
        [Node ''    four spaces:'' [], Node ''another element:'' [],
         Node ''# not a comment'' [], Node [] [], Node ''x:'' []])"
proof -
  have run: "rounds 5 ((defaultParser (linesReader [apostrophe # ''    four spaces:'' @ [apostrophe], ''another element:'' @ [apostrophe], apostrophe # ''# not a comment'', [apostrophe, apostrophe], ''x:'' @ [apostrophe]])), rootHeap, [0], 0) =
      Some (\<lparr>content = \<lparr>pending = [], final = EOF\<rparr>,
      line = [CHR ''x'', CHR '':'', CHR 0x27], lineno = 5, size_p = 56,
      heightLimit = - 1, sizeLimit = - 1\<rparr>,
        [\<lparr>name = ''__root__'', value_c = [1, 2, 3, 4, 5]\<rparr>,
            \<lparr>name = ''    four spaces:'', value_c = []\<rparr>,
            \<lparr>name = ''another element:'', value_c = []\<rparr>,
            \<lparr>name = ''# not a comment'', value_c = []\<rparr>, \<lparr>name = [], value_c = []\<rparr>,
            \<lparr>name = ''x:'', value_c = []\<rparr>],
        [0], 0)"
    by (simp add: eval_defs eval_nat_numeral)
  from ParseConfig_at_EOF [OF run] show ?thesis
    by (simp add: finish_def eval_nat_numeral)
qed

text \<open>Content start marker only.\<close>

lemma test_content_start_only:
  "(case ParseConfig (defaultParser (linesReader [[apostrophe], ''     '' @ [apostrophe]])) of
      (p, h, root, err) \<Rightarrow> (err, tree_of h 4 root)) =
     (None,
      Node ''__root__'' [Node [] [], Node [] []])"
proof -
  have run: "rounds 2 ((defaultParser (linesReader [[apostrophe], ''     '' @ [apostrophe]])), rootHeap, [0], 0) =
      Some (\<lparr>content = \<lparr>pending = [], final = EOF\<rparr>,
      line =
        [CHR '' '', CHR '' '', CHR '' '', CHR '' '', CHR '' '', CHR 0x27],
      lineno = 2, size_p = 7, heightLimit = - 1, sizeLimit = - 1\<rparr>,
        [\<lparr>name = ''__root__'', value_c = [1, 2]\<rparr>, \<lparr>name = [], value_c = []\<rparr>,
            \<lparr>name = [], value_c = []\<rparr>],
        [0], 0)"
    by (simp add: eval_defs eval_nat_numeral)
  from ParseConfig_at_EOF [OF run] show ?thesis
    by (simp add: finish_def eval_nat_numeral)
qed

text \<open>Missing close of a group.\<close>

lemma test_missing_close:
  "(case ParseConfig (defaultParser (linesReader [''test 123:'', ''  xyz'', ''  abc''])) of
      (p, h, root, err) \<Rightarrow> (err, tree_of h 4 root)) =
     (Some (ConfigError unterminatedMsg 3 0),
      Node ''__root__'' [Node ''test 123'' [Node ''xyz'' [], Node ''abc'' []]])"
proof -
  have run: "rounds 3 ((defaultParser (linesReader [''test 123:'', ''  xyz'', ''  abc''])), rootHeap, [0], 0) =
      Some (\<lparr>content = \<lparr>pending = [], final = EOF\<rparr>, line = ''  abc'', lineno = 3,
      size_p = 19, heightLimit = - 1, sizeLimit = - 1\<rparr>,
        [\<lparr>name = ''__root__'', value_c = [1]\<rparr>,
            \<lparr>name = ''test 123'', value_c = [2, 3]\<rparr>, \<lparr>name = ''xyz'', value_c = []\<rparr>,
            \<lparr>name = ''abc'', value_c = []\<rparr>],
        [0, 1], 1)"
    by (simp add: eval_defs eval_nat_numeral)
  from ParseConfig_at_EOF [OF run] show ?thesis
    by (simp add: finish_def eval_nat_numeral)
qed

text \<open>Too many closes.\<close>

lemma test_too_many_closes:
  "(case ParseConfig (defaultParser (linesReader [''test 123:'', ''  xyz'', '':'', ''  abc'', '':''])) of
      (p, h, root, err) \<Rightarrow> (err, tree_of h 4 root)) =
     (Some (ConfigError tooManyMsg 5 0),
      Node ''__root__'' [Node ''test 123'' [Node ''xyz'' []], Node ''abc'' []])"
proof -
  have run: "rounds 4 ((defaultParser (linesReader [''test 123:'', ''  xyz'', '':'', ''  abc'', '':''])), rootHeap, [0], 0) =
      Some (\<lparr>content = \<lparr>pending = [('':'', False)], final = EOF\<rparr>, line = ''  abc'',
      lineno = 4, size_p = 20, heightLimit = - 1, sizeLimit = - 1\<rparr>,
        [\<lparr>name = ''__root__'', value_c = [1, 4]\<rparr>,
            \<lparr>name = ''test 123'', value_c = [2]\<rparr>, \<lparr>name = ''xyz'', value_c = []\<rparr>,
            \<lparr>name = [], value_c = []\<rparr>, \<lparr>name = ''abc'', value_c = []\<rparr>],
        [0], 0)"
    by (simp add: eval_defs eval_nat_numeral)
  have nl: "nextLine \<lparr>content = \<lparr>pending = [('':'', False)], final = EOF\<rparr>, line = ''  abc'',
            lineno = 4, size_p = 20, heightLimit = - 1, sizeLimit = - 1\<rparr> =
      (\<lparr>content = \<lparr>pending = [], final = EOF\<rparr>, line = '':'', lineno = 5,
           size_p = 21, heightLimit = - 1, sizeLimit = - 1\<rparr>, None)"
    by (simp add: eval_defs)
  have lb: "loopBody \<lparr>content = \<lparr>pending = [], final = EOF\<rparr>, line = '':'', lineno = 5,
           size_p = 21, heightLimit = - 1, sizeLimit = - 1\<rparr>
        [\<lparr>name = ''__root__'', value_c = [1, 4]\<rparr>,
            \<lparr>name = ''test 123'', value_c = [2]\<rparr>, \<lparr>name = ''xyz'', value_c = []\<rparr>,
            \<lparr>name = [], value_c = []\<rparr>, \<lparr>name = ''abc'', value_c = []\<rparr>] [0] 0 =
      ([\<lparr>name = ''__root__'', value_c = [1, 4]\<rparr>,
         \<lparr>name = ''test 123'', value_c = [2]\<rparr>, \<lparr>name = ''xyz'', value_c = []\<rparr>,
         \<lparr>name = [], value_c = []\<rparr>, \<lparr>name = ''abc'', value_c = []\<rparr>,
         \<lparr>name = [], value_c = []\<rparr>],
       [], 0, None, True)"
    by (simp add: eval_defs)
  from ParseConfig_iterLoop [OF rounds_then_break [OF run nl lb]] show ?thesis
    by (simp add: finish_def eval_nat_numeral)
qed

text \<open>Four nested groups under a height limit of 3.\<close>

lemma test_height_limit_3:
  "(case ParseConfig ((defaultParser (linesReader [''a:'', ''b:'', ''c:'', ''d:'', '':'', '':'', '':'', '':'']))\<lparr>heightLimit := 3\<rparr>) of
      (p, h, root, err) \<Rightarrow> (err, tree_of h 4 root)) =
     (Some (ConfigError (heightMsg 3) 4 0),
      Node ''__root__'' [Node ''a'' [Node ''b'' [Node ''c'' [Node ''d'' []]]]])"
proof -
  have run: "rounds 3 (((defaultParser (linesReader [''a:'', ''b:'', ''c:'', ''d:'', '':'', '':'', '':'', '':'']))\<lparr>heightLimit := 3\<rparr>), rootHeap, [0], 0) =
      Some (\<lparr>content =
      \<lparr>pending =
         [(''d:'', False), ('':'', False), ('':'', False), ('':'', False),
          ('':'', False)],
         final = EOF\<rparr>,
      line = ''c:'', lineno = 3, size_p = 6, heightLimit = 3,
      sizeLimit = - 1\<rparr>,
        [\<lparr>name = ''__root__'', value_c = [1]\<rparr>, \<lparr>name = ''a'', value_c = [2]\<rparr>,
            \<lparr>name = ''b'', value_c = [3]\<rparr>, \<lparr>name = ''c'', value_c = []\<rparr>],
        [0, 1, 2, 3], 3)"
    by (simp add: eval_defs eval_nat_numeral)
  have nl: "nextLine \<lparr>content =
            \<lparr>pending =
               [(''d:'', False), ('':'', False), ('':'', False), ('':'', False),
                ('':'', False)],
               final = EOF\<rparr>,
            line = ''c:'', lineno = 3, size_p = 6, heightLimit = 3,
            sizeLimit = - 1\<rparr> =
      (\<lparr>content =
           \<lparr>pending =
              [('':'', False), ('':'', False), ('':'', False), ('':'', False)],
              final = EOF\<rparr>,
           line = ''d:'', lineno = 4, size_p = 8, heightLimit = 3,
           sizeLimit = - 1\<rparr>, None)"
    by (simp add: eval_defs)
  have lb: "loopBody \<lparr>content =
           \<lparr>pending =
              [('':'', False), ('':'', False), ('':'', False), ('':'', False)],
              final = EOF\<rparr>,
           line = ''d:'', lineno = 4, size_p = 8, heightLimit = 3,
           sizeLimit = - 1\<rparr>
        [\<lparr>name = ''__root__'', value_c = [1]\<rparr>, \<lparr>name = ''a'', value_c = [2]\<rparr>,
            \<lparr>name = ''b'', value_c = [3]\<rparr>, \<lparr>name = ''c'', value_c = []\<rparr>] [0, 1, 2, 3] 3 =
      ([\<lparr>name = ''__root__'', value_c = [1]\<rparr>, \<lparr>name = ''a'', value_c = [2]\<rparr>,
         \<lparr>name = ''b'', value_c = [3]\<rparr>, \<lparr>name = ''c'', value_c = [4]\<rparr>,
         \<lparr>name = ''d'', value_c = []\<rparr>],
       [0, 1, 2, 3, 4], 4, Some (ConfigError (heightMsg 3) 4 0), True)"
    by (simp add: eval_defs)
  from ParseConfig_iterLoop [OF rounds_then_break [OF run nl lb]] show ?thesis
    by (simp add: finish_def eval_nat_numeral)
qed

text \<open>Four nested groups under a height limit of 4.\<close>

lemma test_height_limit_4:
  "(case ParseConfig ((defaultParser (linesReader [''a:'', ''b:'', ''c:'', ''d:'', '':'', '':'', '':'', '':'']))\<lparr>heightLimit := 4\<rparr>) of
      (p, h, root, err) \<Rightarrow> (err, tree_of h 4 root)) =
     (None,
      Node ''__root__'' [Node ''a'' [Node ''b'' [Node ''c'' [Node ''d'' []]]]])"
proof -
  have run: "rounds 8 (((defaultParser (linesReader [''a:'', ''b:'', ''c:'', ''d:'', '':'', '':'', '':'', '':'']))\<lparr>heightLimit := 4\<rparr>), rootHeap, [0], 0) =
      Some (\<lparr>content = \<lparr>pending = [], final = EOF\<rparr>, line = '':'', lineno = 8,
      size_p = 12, heightLimit = 4, sizeLimit = - 1\<rparr>,
        [\<lparr>name = ''__root__'', value_c = [1]\<rparr>, \<lparr>name = ''a'', value_c = [2]\<rparr>,
            \<lparr>name = ''b'', value_c = [3]\<rparr>, \<lparr>name = ''c'', value_c = [4]\<rparr>,
            \<lparr>name = ''d'', value_c = []\<rparr>, \<lparr>name = [], value_c = []\<rparr>,
            \<lparr>name = [], value_c = []\<rparr>, \<lparr>name = [], value_c = []\<rparr>,
            \<lparr>name = [], value_c = []\<rparr>],
        [0], 0)"
    by (simp add: eval_defs eval_nat_numeral)
  from ParseConfig_at_EOF [OF run] show ?thesis
    by (simp add: finish_def eval_nat_numeral)
qed

text \<open>Thirty-seven bytes of lines under a size limit of 25.\<close>

lemma test_size_limit:
  "(case ParseConfig ((defaultParser (linesReader [''a bunch of words'', ''more words'', '' more words'']))\<lparr>sizeLimit := 25\<rparr>) of
      (p, h, root, err) \<Rightarrow> (err, tree_of h 4 root)) =
     (Some (ConfigError (sizeMsg 25) 1 0),
      Node ''__root__'' [Node ''a bunch of words'' []])"
proof -
  have run: "rounds 1 (((defaultParser (linesReader [''a bunch of words'', ''more words'', '' more words'']))\<lparr>sizeLimit := 25\<rparr>), rootHeap, [0], 0) =
      Some (\<lparr>content =
      \<lparr>pending = [(''more words'', False), ('' more words'', False)],
         final = EOF\<rparr>,
      line = ''a bunch of words'', lineno = 1, size_p = 16,
      heightLimit = - 1, sizeLimit = 25\<rparr>,
        [\<lparr>name = ''__root__'', value_c = [1]\<rparr>,
            \<lparr>name = ''a bunch of words'', value_c = []\<rparr>],
        [0], 0)"
    by (simp add: eval_defs eval_nat_numeral)
  have nl: "nextLine \<lparr>content =
            \<lparr>pending = [(''more words'', False), ('' more words'', False)],
               final = EOF\<rparr>,
            line = ''a bunch of words'', lineno = 1, size_p = 16,
            heightLimit = - 1, sizeLimit = 25\<rparr> =
      (\<lparr>content = \<lparr>pending = [('' more words'', False)], final = EOF\<rparr>,
           line = ''more words'', lineno = 1, size_p = 26, heightLimit = - 1,
           sizeLimit = 25\<rparr>, Some (ConfigError (sizeMsg 25) 1 0))"
    by (simp add: eval_defs)
  from ParseConfig_iterLoop [OF rounds_then_error [OF run nl]] show ?thesis
    by (simp add: finish_def eval_nat_numeral)
qed

section \<open>What the recursive parser does\<close>

text \<open>
  On the inputs of the tests the recursive parser rejects four nested groups under a
  height limit of 4, and returns no error for thirty-seven bytes under a size limit of
  25: the tests are those of the parser with the stack.
\<close>

lemma recursive_height_limit_4:
  "ParseConfig_recursive 12
     ((defaultParser (linesReader [''a:'', ''b:'', ''c:'', ''d:'', '':'', '':'', '':'', '':'']))
        \<lparr>heightLimit := 4\<rparr>) =
   Some (\<lparr>content = \<lparr>pending = [('':'', False), ('':'', False), ('':'', False), ('':'', False)],
                       final = EOF\<rparr>,
           line = ''d:'', lineno = 4, size_p = 8, heightLimit = 4, sizeLimit = - 1\<rparr>,
         [\<lparr>name = ''__root__'', value_c = [1]\<rparr>, \<lparr>name = ''a'', value_c = [2]\<rparr>,
          \<lparr>name = ''b'', value_c = [3]\<rparr>, \<lparr>name = ''c'', value_c = [4]\<rparr>,
          \<lparr>name = ''d'', value_c = []\<rparr>],
         0, Some (ConfigError (heightMsg 4) 4 0))"
  by (simp add: ParseConfig_recursive_def checkHeight_recursive_def eval_defs eval_nat_numeral)

lemma recursive_size_limit:
  "ParseConfig_recursive 12
     ((defaultParser (linesReader [''a bunch of words'', ''more words'', '' more words'']))
        \<lparr>sizeLimit := 25\<rparr>) =
   Some (\<lparr>content = \<lparr>pending = [], final = EOF\<rparr>, line = [], lineno = 1,
           size_p = 37, heightLimit = - 1, sizeLimit = 25\<rparr>,
         [\<lparr>name = ''__root__'', value_c = [1, 2, 3]\<rparr>,
          \<lparr>name = ''a bunch of words'', value_c = []\<rparr>,
          \<lparr>name = ''more words'', value_c = []\<rparr>,
          \<lparr>name = ''more words'', value_c = []\<rparr>],
         0, None)"
  by (simp add: ParseConfig_recursive_def checkHeight_recursive_def eval_defs eval_nat_numeral)

text \<open>On a reader that keeps failing the recursive parser does not return.\<close>

lemma recursiveLoop_read_error:
  "pending (content p) = [] \<Longrightarrow> final (content p) \<noteq> EOF \<Longrightarrow>
   recursiveLoop fuel p h c height = None"
proof (induction fuel arbitrary: p)
  case 0
  then show ?case by simp
next
  case (Suc fuel)
  have nl: "nextLine p = (p\<lparr>line := []\<rparr>, Some (final (content p)))"
    using Suc.prems(1) by (rule nextLine_at_end)
  have sc: "scanLine [] = None"
    by (simp add: scanLine_def skipBlank.simps)
  have "recursiveLoop fuel (p\<lparr>line := []\<rparr>) h c height = None"
    using Suc.prems by (intro Suc.IH) simp_all
  with nl sc Suc.prems(2) show ?case by simp
qed

lemma recursive_read_error:
  assumes "pending (content p) = []" and "final (content p) \<noteq> EOF"
    and "heightLimit p = - 1 \<or> 0 < heightLimit p"
  shows "ParseConfig_recursive fuel p = None"
proof (cases fuel)
  case 0
  then show ?thesis by (simp add: ParseConfig_recursive_def newConfig_def)
next
  case (Suc k)
  with recursiveLoop_read_error [OF assms(1,2)] assms(3) show ?thesis
    by (auto simp: ParseConfig_recursive_def newConfig_def checkHeight_recursive_def)
qed

text \<open>When it returns, the root is named as \<open>ParseConfig\<close> named it.\<close>

lemma recursive_keeps:
  "(recursiveParse fuel p h c height = Some (p', h', e) \<longrightarrow>
      (\<forall>a < length h. a < length h' \<and> name (h' ! a) = name (h ! a))) \<and>
   (recursiveLoop fuel p h c height = Some (p', h', e) \<longrightarrow>
      (\<forall>a < length h. a < length h' \<and> name (h' ! a) = name (h ! a)))"
proof (induction fuel arbitrary: p h c height p' h' e)
  case 0
  show ?case by simp
next
  case (Suc fuel)
  note IHP = Suc.IH [THEN conjunct1, rule_format]
  note IHL = Suc.IH [THEN conjunct2, rule_format]
  have P: "recursiveParse (Suc fuel) p h c height = Some (p', h', e) \<Longrightarrow> a < length h \<Longrightarrow>
      a < length h' \<and> name (h' ! a) = name (h ! a)" for a
    using IHL [of p h c height p' h' e a]
    by (auto split: option.splits)
  have L: "a < length h' \<and> name (h' ! a) = name (h ! a)"
    if rl: "recursiveLoop (Suc fuel) p h c height = Some (p', h', e)" and a: "a < length h" for a
  proof -
    obtain p1 err where nl: "nextLine p = (p1, err)" by (metis surj_pair)
    show ?thesis
    proof (cases "err = Some EOF")
      case True
      with rl nl a show ?thesis by auto
    next
      case False
      show ?thesis
      proof (cases "scanLine (line p1)")
        case None
        with rl nl False have "recursiveLoop fuel p1 h c height = Some (p', h', e)" by simp
        from IHL [OF this a] show ?thesis .
      next
        case (Some sc)
        obtain start en tok fcs nv where sc: "sc = (start, en, tok, fcs, nv)" by (cases sc)
        let ?h1 = "h @ [\<lparr>name = [], value_c = []\<rparr>]"
        have a1: "a < length ?h1" "name (?h1 ! a) = name (h ! a)" "a \<noteq> length h"
          using a by (simp_all add: nth_append)
        show ?thesis
        proof (cases "tok = CHR '':''")
          case True
          show ?thesis
          proof (cases "start = en \<and> \<not> fcs")
            case cl: True
            with rl nl False Some sc True a1 show ?thesis
              by (auto simp: newConfig_def)
          next
            case op: False
            let ?h3 = "setName (addValue ?h1 c (length h)) (length h) (slice (line p1) start en)"
            have a3: "a < length ?h3" "name (?h3 ! a) = name (h ! a)"
              using a1 by (simp_all add: setName_length addValue_length setName_other addValue_name)
            obtain r where r: "recursiveParse fuel p1 ?h3 (length h) (height + 1) = r" by simp
            show ?thesis
            proof (cases r)
              case None
              with rl nl False Some sc True op r show ?thesis
                by (simp add: newConfig_def Let_def)
            next
              case (Some res)
              obtain p2 h4 e2 where res: "res = (p2, h4, e2)" by (cases res)
              from IHP [of p1 ?h3 "length h" "height + 1" p2 h4 e2 a] r Some res a3
              have a4: "a < length h4" "name (h4 ! a) = name (h ! a)" by simp_all
              show ?thesis
              proof (cases e2)
                case None
                with rl nl False \<open>scanLine (line p1) = Some sc\<close> sc True op r Some res
                have "recursiveLoop fuel p2 h4 c height = Some (p', h', e)"
                  by (simp add: newConfig_def Let_def)
                from IHL [OF this a4(1)] a4(2) show ?thesis by simp
              next
                case (Some e3)
                with rl nl False \<open>scanLine (line p1) = Some sc\<close> sc True op r
                  \<open>r = Some res\<close> res a4
                show ?thesis by (simp add: newConfig_def Let_def)
              qed
            qed
          qed
        next
          case nt: False
          show ?thesis
          proof (cases "nv \<noteq> - 1")
            case True
            let ?h5 = "addValue (addValue (setName ?h1 (length h) (slice (line p1) start (nat nv)) @
                [\<lparr>name = slice (line p1) (nat (nv + 2)) en, value_c = []\<rparr>])
                (length h) (Suc (length h))) c (length h)"
            have a5: "a < length ?h5" "name (?h5 ! a) = name (h ! a)"
              using a1 by (simp_all add: setName_length addValue_length setName_other
                  addValue_name nth_append)
            from rl nl False Some sc nt True
            have "recursiveLoop fuel p1 ?h5 c height = Some (p', h', e)"
              by (simp add: newConfig_def Let_def setName_length)
            from IHL [OF this a5(1)] a5(2) show ?thesis by simp
          next
            case lf: False
            let ?h3 = "addValue (setName ?h1 (length h) (slice (line p1) start en)) c (length h)"
            have a3: "a < length ?h3" "name (?h3 ! a) = name (h ! a)"
              using a1 by (simp_all add: setName_length addValue_length setName_other addValue_name)
            from rl nl False Some sc nt lf
            have "recursiveLoop fuel p1 ?h3 c height = Some (p', h', e)"
              by (simp add: newConfig_def Let_def)
            from IHL [OF this a3(1)] a3(2) show ?thesis by simp
          qed
        qed
      qed
    qed
  qed
  from P L show ?case by blast
qed

lemma ParseConfig_recursive_root_name:
  "ParseConfig_recursive fuel p = Some (p', h', root, err) \<Longrightarrow>
   root < length h' \<and> name (h' ! root) = ''__root__''"
  using recursive_keeps [of fuel p "[\<lparr>name = ''__root__'', value_c = []\<rparr>]" 0 0,
      THEN conjunct1]
  by (auto simp: ParseConfig_recursive_def newConfig_def split: option.splits)

lemma readMore_final:
  "pending (content p) = frs \<Longrightarrow> readMore p = (p', e) \<Longrightarrow>
   final (content p') = final (content p)"
proof (induction frs arbitrary: p)
  case Nil
  then show ?case
    by (subst (asm) readMore_unfold) (auto split: if_splits option.splits)
next
  case (Cons fr rest)
  obtain l pfx where fr: "fr = (l, pfx)" by (cases fr)
  let ?p2 = "p\<lparr>content := (content p)\<lparr>pending := rest\<rparr>, size_p := size_p p + int (length l)\<rparr>"
  show ?case
  proof (cases "checkSize ?p2 = None \<and> pfx")
    case True
    with Cons.prems fr have "readMore (?p2\<lparr>line := line p @ l\<rparr>) = (p', e)"
      by (subst (asm) readMore_unfold) (simp add: Let_def)
    from Cons.IH [OF _ this] show ?thesis by simp
  next
    case False
    with Cons.prems fr show ?thesis
      by (subst (asm) readMore_unfold) (auto simp: Let_def split: option.splits if_splits)
  qed
qed

lemma nextLine_final:
  assumes "nextLine p = (p', e)"
  shows "final (content p') = final (content p)"
proof (cases "pending (content p)")
  case Nil
  with assms show ?thesis by (auto simp: nextLine_unfold)
next
  case (Cons fr rest)
  obtain l pfx where fr: "fr = (l, pfx)" by (cases fr)
  let ?p2 = "p\<lparr>content := (content p)\<lparr>pending := rest\<rparr>, line := l,
               size_p := size_p p + int (length l)\<rparr>"
  obtain p3 e3 where rm: "readMore ?p2 = (p3, e3)" by (metis surj_pair)
  from readMore_final [OF _ rm, of rest] have "final (content p3) = final (content p)" by simp
  with assms Cons fr rm show ?thesis
    by (auto simp: nextLine_unfold Let_def split: option.splits if_splits)
qed

lemma nextLine_progress:
  assumes "nextLine p = (p', e)" and "e \<noteq> Some (final (content p))"
  shows "length (pending (content p')) < length (pending (content p))"
proof (cases "pending (content p)")
  case Nil
  with assms show ?thesis by (auto simp: nextLine_unfold)
next
  case (Cons fr rest)
  obtain l pfx where fr: "fr = (l, pfx)" by (cases fr)
  let ?p2 = "p\<lparr>content := (content p)\<lparr>pending := rest\<rparr>, line := l,
               size_p := size_p p + int (length l)\<rparr>"
  obtain p3 e3 where rm: "readMore ?p2 = (p3, e3)" by (metis surj_pair)
  from readMore_pending_le [OF rm] have "length (pending (content p3)) \<le> length rest" by simp
  with assms(1) Cons fr rm show ?thesis
    by (auto simp: nextLine_unfold Let_def split: option.splits if_splits)
qed

text \<open>
  On a reader that ends in \<open>io.EOF\<close> the recursive parser returns: two units of fuel for
  every fragment left, and two more, are enough.
\<close>

lemma recursive_returns:
  "final (content p) = EOF \<Longrightarrow>
   (2 * length (pending (content p)) + 2 \<le> fuel \<longrightarrow>
      (\<exists>p' h' e. recursiveParse fuel p h c height = Some (p', h', e) \<and>
         length (pending (content p')) \<le> length (pending (content p)) \<and>
         final (content p') = EOF)) \<and>
   (2 * length (pending (content p)) + 1 \<le> fuel \<longrightarrow>
      (\<exists>p' h' e. recursiveLoop fuel p h c height = Some (p', h', e) \<and>
         length (pending (content p')) \<le> length (pending (content p)) \<and>
         final (content p') = EOF))"
proof (induction fuel arbitrary: p h c height)
  case 0
  show ?case by simp
next
  case (Suc fuel)
  note fin = Suc.prems
  note IHP = Suc.IH [THEN conjunct1, rule_format]
  note IHL = Suc.IH [THEN conjunct2, rule_format]
  let ?m = "length (pending (content p))"
  have P: "\<exists>p' h' e. recursiveParse (Suc fuel) p h c height = Some (p', h', e) \<and>
         length (pending (content p')) \<le> ?m \<and> final (content p') = EOF"
    if "2 * ?m + 2 \<le> Suc fuel"
  proof (cases "checkHeight_recursive p height")
    case None
    from that have "2 * ?m + 1 \<le> fuel" by simp
    from IHL [OF fin this, of h c height] None show ?thesis by simp
  next
    case (Some e)
    with fin show ?thesis by simp
  qed
  have L: "\<exists>p' h' e. recursiveLoop (Suc fuel) p h c height = Some (p', h', e) \<and>
         length (pending (content p')) \<le> ?m \<and> final (content p') = EOF"
    if fu: "2 * ?m + 1 \<le> Suc fuel"
  proof -
    obtain p1 err where nl: "nextLine p = (p1, err)" by (metis surj_pair)
    have fin1: "final (content p1) = EOF" using nextLine_final [OF nl] fin by simp
    have le1: "length (pending (content p1)) \<le> ?m" using nextLine_read [OF nl] by auto
    show ?thesis
    proof (cases "err = Some EOF")
      case True
      with nl fin1 le1 show ?thesis by simp
    next
      case False
      with nextLine_progress [OF nl] fin have lt: "length (pending (content p1)) < ?m" by simp
      with fu have f1: "2 * length (pending (content p1)) + 2 \<le> fuel" by simp
      then have f2: "2 * length (pending (content p1)) + 1 \<le> fuel" by simp
      have cont: "\<exists>p' h' e. recursiveLoop fuel p1 k c height = Some (p', h', e) \<and>
         length (pending (content p')) \<le> ?m \<and> final (content p') = EOF" for k
        using IHL [OF fin1 f2, of k c height] lt by fastforce
      show ?thesis
      proof (cases "scanLine (line p1)")
        case None
        with nl False cont [of h] show ?thesis by simp
      next
        case (Some sc)
        obtain start en tok fcs nv where sc: "sc = (start, en, tok, fcs, nv)" by (cases sc)
        let ?h1 = "h @ [\<lparr>name = [], value_c = []\<rparr>]"
        show ?thesis
        proof (cases "tok = CHR '':''")
          case True
          show ?thesis
          proof (cases "start = en \<and> \<not> fcs")
            case cl: True
            with nl False Some sc True fin1 le1 show ?thesis
              by (simp add: newConfig_def)
          next
            case op: False
            then have nop: "(start = en \<and> \<not> fcs) = False" by simp
            let ?h3 = "setName (addValue ?h1 c (length h)) (length h) (slice (line p1) start en)"
            from IHP [OF fin1 f1, of ?h3 "length h" "height + 1"]
            obtain p2 h4 e2 where rp: "recursiveParse fuel p1 ?h3 (length h) (height + 1) =
                Some (p2, h4, e2)"
              and le2: "length (pending (content p2)) \<le> length (pending (content p1))"
              and fin2: "final (content p2) = EOF"
              by blast
            show ?thesis
            proof (cases e2)
              case None
              from le2 f2 have "2 * length (pending (content p2)) + 1 \<le> fuel" by simp
              from IHL [OF fin2 this, of h4 c height]
              obtain p' h' e where "recursiveLoop fuel p2 h4 c height = Some (p', h', e)"
                "length (pending (content p')) \<le> length (pending (content p2))"
                "final (content p') = EOF" by blast
              with nl False Some sc True rp None le2 le1 show ?thesis
                by (simp add: newConfig_def Let_def nop)
            next
              case (Some e3)
              with nl False \<open>scanLine (line p1) = Some sc\<close> sc True rp le2 le1 fin2
              show ?thesis by (simp add: newConfig_def Let_def nop)
            qed
          qed
        next
          case nt: False
          show ?thesis
          proof (cases "nv \<noteq> - 1")
            case True
            with nl False Some sc nt
              cont [of "addValue (addValue (setName ?h1 (length h) (slice (line p1) start (nat nv)) @
                [\<lparr>name = slice (line p1) (nat (nv + 2)) en, value_c = []\<rparr>])
                (length h) (Suc (length h))) c (length h)"]
            show ?thesis by (simp add: newConfig_def Let_def setName_length)
          next
            case lf: False
            with nl False Some sc nt
              cont [of "addValue (setName ?h1 (length h) (slice (line p1) start en)) c (length h)"]
            show ?thesis by (simp add: newConfig_def Let_def)
          qed
        qed
      qed
    qed
  qed
  from P L show ?case by blast
qed

lemma ParseConfig_recursive_returns:
  assumes "final (content p) = EOF" and "2 * length (pending (content p)) + 2 \<le> fuel"
  shows "\<exists>r. ParseConfig_recursive fuel p = Some r"
proof -
  from recursive_returns [OF assms(1), THEN conjunct1, rule_format, OF assms(2),
      of "[\<lparr>name = ''__root__'', value_c = []\<rparr>]" 0 0]
  show ?thesis
    by (auto simp: ParseConfig_recursive_def newConfig_def)
qed

section \<open>The root node\<close>

text \<open>
  Claim C8. For every parser state and input, \<open>ParseConfig\<close> returns a root node that
  exists in the store and whose name is the reserved identifier \<open>__root__\<close>, whether the
  parse succeeds or returns an error, and also for an empty input.
\<close>

theorem ParseConfig_root_name:
  "(case ParseConfig p of (p', h', root, err) \<Rightarrow>
      root < length h' \<and> name (h' ! root) = ''__root__'')"
proof -
  obtain q k st e where il: "iterLoop p rootHeap [0] 0 = (q, k, st, e)"
    by (metis prod_cases4)
  from iterLoop_keeps [OF il, of 0] ParseConfig_iterLoop [OF il]
  show ?thesis by (simp add: rootHeap_def)
qed

section \<open>Structural errors\<close>

text \<open>
  Claim C5. Take any state met during a parse in which the stack holds the root alone. If
  the next logical line is read without error and is a close-scope line, \<open>ParseConfig\<close>
  stops at that line: the parser is returned as the read of that line left it (what
  follows is never read), and the error is the "too many terminators" error with the
  number of that line. The store returned is the one built so far with one more cell, the
  unlinked node that the loop body allocates for every line: the tree below the root is
  the tree built before the line.
\<close>

theorem close_at_root_stops:
  assumes run: "rounds n (p0, rootHeap, [0], 0) = Some (p, h, [r], c)"
    and nl: "nextLine p = (p1, None)"
    and cl: "isCloseScope (line p1)"
  shows "ParseConfig p0 =
           (p1, h @ [\<lparr>name = [], value_c = []\<rparr>], 0,
            Some (ConfigError tooManyMsg (lineno p1) 0)) \<and>
         lineno p1 = lineno p0 + int n + 1 \<and>
         (\<forall>k. tree_of (h @ [\<lparr>name = [], value_c = []\<rparr>]) k 0 = tree_of h k 0)"
proof -
  from cl have lb: "loopBody p1 h [r] c = (h @ [\<lparr>name = [], value_c = []\<rparr>], [], c, None, True)"
    by (auto simp: isCloseScope_def loopBody_def buildNode_def newConfig_def
        split: option.splits)
  from ParseConfig_iterLoop [OF rounds_then_break [OF run nl lb]]
  have a: "ParseConfig p0 =
      (p1, h @ [\<lparr>name = [], value_c = []\<rparr>], 0, Some (ConfigError tooManyMsg (lineno p1) 0))"
    by (simp add: finish_def)
  have b: "lineno p1 = lineno p0 + int n + 1"
    using rounds_lineno [OF run] nextLine_lineno [OF nl] by simp
  from rounds_stackInv [OF run stackInv_rootHeap] have "r = 0" and "0 < length h"
    by (auto simp: stackInv_def)
  with tree_of_append [OF rounds_closedHeap [OF run closedHeap_rootHeap]]
  have "\<forall>k. tree_of (h @ [\<lparr>name = [], value_c = []\<rparr>]) k 0 = tree_of h k 0"
    by simp
  with a b show ?thesis by simp
qed

theorem close_at_root_stops_witness:
  "rounds 1 (defaultParser (linesReader [''a'', '':'', ''b'']), rootHeap, [0], 0) =
     Some (\<lparr>content = \<lparr>pending = [('':'', False), (''b'', False)], final = EOF\<rparr>,
             line = ''a'', lineno = 1, size_p = 1, heightLimit = - 1, sizeLimit = - 1\<rparr>,
           [\<lparr>name = ''__root__'', value_c = [1]\<rparr>, \<lparr>name = ''a'', value_c = []\<rparr>], [0], 0) \<and>
   nextLine \<lparr>content = \<lparr>pending = [('':'', False), (''b'', False)], final = EOF\<rparr>,
             line = ''a'', lineno = 1, size_p = 1, heightLimit = - 1, sizeLimit = - 1\<rparr> =
     (\<lparr>content = \<lparr>pending = [(''b'', False)], final = EOF\<rparr>,
        line = '':'', lineno = 2, size_p = 2, heightLimit = - 1, sizeLimit = - 1\<rparr>, None) \<and>
   isCloseScope '':'' \<and>
   ParseConfig (defaultParser (linesReader [''a'', '':'', ''b''])) =
     (\<lparr>content = \<lparr>pending = [(''b'', False)], final = EOF\<rparr>,
        line = '':'', lineno = 2, size_p = 2, heightLimit = - 1, sizeLimit = - 1\<rparr>,
      [\<lparr>name = ''__root__'', value_c = [1]\<rparr>, \<lparr>name = ''a'', value_c = []\<rparr>,
       \<lparr>name = [], value_c = []\<rparr>],
      0, Some (ConfigError tooManyMsg 2 0))"
proof -
  let ?p = "\<lparr>content = \<lparr>pending = [('':'', False), (''b'', False)], final = EOF\<rparr>,
             line = ''a'', lineno = 1, size_p = 1, heightLimit = - 1, sizeLimit = - 1\<rparr>"
  let ?p1 = "\<lparr>content = \<lparr>pending = [(''b'', False)], final = EOF\<rparr>,
        line = '':'', lineno = 2, size_p = 2, heightLimit = - 1, sizeLimit = - 1\<rparr>"
  let ?h = "[\<lparr>name = ''__root__'', value_c = [1]\<rparr>, \<lparr>name = ''a'', value_c = []\<rparr>]"
  have a: "rounds 1 (defaultParser (linesReader [''a'', '':'', ''b'']), rootHeap, [0], 0) =
      Some (?p, ?h, [0], 0)"
    by (simp add: eval_defs)
  have b: "nextLine ?p = (?p1, None)"
    by (simp add: eval_defs)
  have c: "isCloseScope (line ?p1)"
    by (simp add: isCloseScope_def eval_defs)
  from close_at_root_stops [OF a b c] a b c show ?thesis by simp
qed

text \<open>
  Claim C6. Take any state met during a parse at which the next read reports the end of
  the input. The stack is then not empty and its bottom is the root. If it holds the root
  alone, \<open>ParseConfig\<close> returns no error; if it holds more, \<open>ParseConfig\<close> returns the
  "unterminated group" error with the final line number, the number of logical lines
  read. Either way the store built so far is returned.
\<close>

theorem end_of_input:
  assumes run: "rounds n (p0, rootHeap, [0], 0) = Some (p, h, stack, c)"
    and nl: "nextLine p = (p1, Some EOF)"
  shows "stack \<noteq> [] \<and> hd stack = 0 \<and> lineno p1 = lineno p0 + int n \<and>
         ParseConfig p0 =
           (p1, h, 0,
            if length stack > 1 then Some (ConfigError unterminatedMsg (lineno p1) 0) else None)"
proof -
  from rounds_stackInv [OF run stackInv_rootHeap]
  have ne: "stack \<noteq> []" and hd: "hd stack = 0" by (simp_all add: stackInv_def)
  from ne have "length stack \<noteq> 0" by simp
  moreover have "lineno p1 = lineno p0 + int n"
    using rounds_lineno [OF run] nextLine_lineno [OF nl] by simp
  ultimately show ?thesis
    using ParseConfig_iterLoop [OF rounds_then_error [OF run nl]] ne hd
    by (simp add: finish_def)
qed

lemma ex_eof_open_run:
  "rounds 2 (defaultParser (linesReader [''a:'', ''b'']), rootHeap, [0], 0) =
     Some (\<lparr>content = \<lparr>pending = [], final = EOF\<rparr>, line = ''b'', lineno = 2, size_p = 3,
             heightLimit = - 1, sizeLimit = - 1\<rparr>,
           [\<lparr>name = ''__root__'', value_c = [1]\<rparr>, \<lparr>name = ''a'', value_c = [2]\<rparr>,
            \<lparr>name = ''b'', value_c = []\<rparr>], [0, 1], 1)"
  by (simp add: eval_defs eval_nat_numeral)

lemma ex_eof_open_nextLine:
  "nextLine \<lparr>content = \<lparr>pending = [], final = EOF\<rparr>, line = ''b'', lineno = 2, size_p = 3,
             heightLimit = - 1, sizeLimit = - 1\<rparr> =
     (\<lparr>content = \<lparr>pending = [], final = EOF\<rparr>, line = [], lineno = 2, size_p = 3,
        heightLimit = - 1, sizeLimit = - 1\<rparr>, Some EOF)"
  by (simp add: eval_defs)

lemma ex_eof_closed_run:
  "rounds 1 (defaultParser (linesReader [''a'']), rootHeap, [0], 0) =
     Some (\<lparr>content = \<lparr>pending = [], final = EOF\<rparr>, line = ''a'', lineno = 1, size_p = 1,
             heightLimit = - 1, sizeLimit = - 1\<rparr>,
           [\<lparr>name = ''__root__'', value_c = [1]\<rparr>, \<lparr>name = ''a'', value_c = []\<rparr>], [0], 0)"
  by (simp add: eval_defs)

lemma ex_eof_closed_nextLine:
  "nextLine \<lparr>content = \<lparr>pending = [], final = EOF\<rparr>, line = ''a'', lineno = 1, size_p = 1,
             heightLimit = - 1, sizeLimit = - 1\<rparr> =
     (\<lparr>content = \<lparr>pending = [], final = EOF\<rparr>, line = [], lineno = 1, size_p = 1,
        heightLimit = - 1, sizeLimit = - 1\<rparr>, Some EOF)"
  by (simp add: eval_defs)

theorem end_of_input_witness:
  "rounds 2 (defaultParser (linesReader [''a:'', ''b'']), rootHeap, [0], 0) =
     Some (\<lparr>content = \<lparr>pending = [], final = EOF\<rparr>, line = ''b'', lineno = 2, size_p = 3,
             heightLimit = - 1, sizeLimit = - 1\<rparr>,
           [\<lparr>name = ''__root__'', value_c = [1]\<rparr>, \<lparr>name = ''a'', value_c = [2]\<rparr>,
            \<lparr>name = ''b'', value_c = []\<rparr>], [0, 1], 1) \<and>
   ParseConfig (defaultParser (linesReader [''a:'', ''b''])) =
     (\<lparr>content = \<lparr>pending = [], final = EOF\<rparr>, line = [], lineno = 2, size_p = 3,
        heightLimit = - 1, sizeLimit = - 1\<rparr>,
      [\<lparr>name = ''__root__'', value_c = [1]\<rparr>, \<lparr>name = ''a'', value_c = [2]\<rparr>,
       \<lparr>name = ''b'', value_c = []\<rparr>],
      0, Some (ConfigError unterminatedMsg 2 0)) \<and>
   rounds 1 (defaultParser (linesReader [''a'']), rootHeap, [0], 0) =
     Some (\<lparr>content = \<lparr>pending = [], final = EOF\<rparr>, line = ''a'', lineno = 1, size_p = 1,
             heightLimit = - 1, sizeLimit = - 1\<rparr>,
           [\<lparr>name = ''__root__'', value_c = [1]\<rparr>, \<lparr>name = ''a'', value_c = []\<rparr>], [0], 0) \<and>
   ParseConfig (defaultParser (linesReader [''a''])) =
     (\<lparr>content = \<lparr>pending = [], final = EOF\<rparr>, line = [], lineno = 1, size_p = 1,
        heightLimit = - 1, sizeLimit = - 1\<rparr>,
      [\<lparr>name = ''__root__'', value_c = [1]\<rparr>, \<lparr>name = ''a'', value_c = []\<rparr>], 0, None)"
  using end_of_input [OF ex_eof_open_run ex_eof_open_nextLine]
    end_of_input [OF ex_eof_closed_run ex_eof_closed_nextLine]
    ex_eof_open_run ex_eof_closed_run
  by simp

section \<open>Open-scope lines\<close>

text \<open>
  Claim C4. For a line that ends in the terminator and is not a bare terminator (its
  content is not empty, or it is content-escaped), the loop body allocates a node whose
  name is the whole span \<open>p.line[start:end]\<close>, appends it to the children of the current
  node and pushes it. The split point \<open>nvPairNameEnd\<close> plays no part, whatever the scan
  found. On the input \<open>test: 123:\<close> followed by a close line the first child of the root is
  named \<open>test: 123\<close> and has no children.
\<close>

theorem open_scope_name:
  assumes sc: "scanLine (line p1) = Some (start, end, CHR '':'', fcs, nv)"
    and op: "\<not> (start = end \<and> \<not> fcs)"
    and c: "c < length h"
  shows "loopBody p1 h stack c =
           (opened h c (slice (line p1) start end), stack @ [length h], length h,
            checkHeight p1 (int (length stack)), checkHeight p1 (int (length stack)) \<noteq> None) \<and>
         opened h c (slice (line p1) start end) ! length h =
           \<lparr>name = slice (line p1) start end, value_c = []\<rparr> \<and>
         value_c (opened h c (slice (line p1) start end) ! c) = value_c (h ! c) @ [length h]"
  using loopBody_open [OF assms] opened_new [OF c] opened_parent [OF c] by simp

theorem open_scope_name_witness:
  "scanLine ''test: 123:'' = Some (0, 9, CHR '':'', False, 4) \<and>
   loopBody \<lparr>content = \<lparr>pending = [('':'', False)], final = EOF\<rparr>, line = ''test: 123:'',
              lineno = 1, size_p = 10, heightLimit = - 1, sizeLimit = - 1\<rparr> rootHeap [0] 0 =
     ([\<lparr>name = ''__root__'', value_c = [1]\<rparr>, \<lparr>name = ''test: 123'', value_c = []\<rparr>],
      [0, 1], 1, None, False) \<and>
   rounds 2 (defaultParser (linesReader [''test: 123:'', '':'']), rootHeap, [0], 0) =
     Some (\<lparr>content = \<lparr>pending = [], final = EOF\<rparr>, line = '':'', lineno = 2,
             size_p = 11, heightLimit = - 1, sizeLimit = - 1\<rparr>,
           [\<lparr>name = ''__root__'', value_c = [1]\<rparr>, \<lparr>name = ''test: 123'', value_c = []\<rparr>,
            \<lparr>name = [], value_c = []\<rparr>], [0], 0) \<and>
   ParseConfig (defaultParser (linesReader [''test: 123:'', '':''])) =
     (\<lparr>content = \<lparr>pending = [], final = EOF\<rparr>, line = [], lineno = 2,
        size_p = 11, heightLimit = - 1, sizeLimit = - 1\<rparr>,
      [\<lparr>name = ''__root__'', value_c = [1]\<rparr>, \<lparr>name = ''test: 123'', value_c = []\<rparr>,
       \<lparr>name = [], value_c = []\<rparr>], 0, None)"
proof -
  let ?p1 = "\<lparr>content = \<lparr>pending = [('':'', False)], final = EOF\<rparr>, line = ''test: 123:'',
              lineno = 1, size_p = 10, heightLimit = - 1, sizeLimit = - 1\<rparr>"
  let ?p2 = "\<lparr>content = \<lparr>pending = [], final = EOF\<rparr>, line = '':'', lineno = 2,
             size_p = 11, heightLimit = - 1, sizeLimit = - 1\<rparr>"
  let ?p3 = "\<lparr>content = \<lparr>pending = [], final = EOF\<rparr>, line = [], lineno = 2,
        size_p = 11, heightLimit = - 1, sizeLimit = - 1\<rparr>"
  let ?h2 = "[\<lparr>name = ''__root__'', value_c = [1]\<rparr>, \<lparr>name = ''test: 123'', value_c = []\<rparr>,
            \<lparr>name = [], value_c = []\<rparr>]"
  have sc: "scanLine (line ?p1) = Some (0, 9, CHR '':'', False, 4)"
    by (simp add: eval_defs)
  have op: "\<not> ((0::nat) = 9 \<and> \<not> False)" by simp
  have c: "(0::nat) < length rootHeap" by (simp add: rootHeap_def)
  have lb: "loopBody ?p1 rootHeap [0] 0 =
     ([\<lparr>name = ''__root__'', value_c = [1]\<rparr>, \<lparr>name = ''test: 123'', value_c = []\<rparr>],
      [0, 1], 1, None, False)"
    using open_scope_name [OF sc op c, of "[0]"]
    by (simp add: opened_def rootHeap_def slice_def checkHeight_def)
  have run: "rounds 2 (defaultParser (linesReader [''test: 123:'', '':'']), rootHeap, [0], 0) =
      Some (?p2, ?h2, [0], 0)"
    by (simp add: eval_defs eval_nat_numeral)
  have nl: "nextLine ?p2 = (?p3, Some EOF)"
    by (simp add: eval_defs)
  from ParseConfig_iterLoop [OF rounds_then_error [OF run nl]]
  have "ParseConfig (defaultParser (linesReader [''test: 123:'', '':''])) = (?p3, ?h2, 0, None)"
    by (simp add: finish_def)
  with sc lb run show ?thesis by simp
qed

text \<open>
  Claim C9. When the depth check fails at an open-scope line met during a parse,
  \<open>ParseConfig\<close> returns the depth error together with a store in which the node opened by
  that line is already there: it is the newest cell, it carries the name of the line, and
  its address is the last child of the node that was current.
\<close>

theorem depth_error_keeps_node:
  assumes run: "rounds n (p0, rootHeap, [0], 0) = Some (p, h, stack, c)"
    and nl: "nextLine p = (p1, None)"
    and sc: "scanLine (line p1) = Some (start, end, CHR '':'', fcs, nv)"
    and op: "\<not> (start = end \<and> \<not> fcs)"
    and ch: "checkHeight p1 (int (length stack)) = Some e"
  shows "ParseConfig p0 = (p1, opened h c (slice (line p1) start end), 0, Some e) \<and>
         c < length h \<and>
         opened h c (slice (line p1) start end) ! length h =
           \<lparr>name = slice (line p1) start end, value_c = []\<rparr> \<and>
         value_c (opened h c (slice (line p1) start end) ! c) = value_c (h ! c) @ [length h]"
proof -
  from rounds_stackInv [OF run stackInv_rootHeap] have c: "c < length h"
    by (auto simp: stackInv_def list_all_iff)
  have lb: "loopBody p1 h stack c =
      (opened h c (slice (line p1) start end), stack @ [length h], length h, Some e, True)"
    using loopBody_open [OF sc op c, of stack] ch by simp
  from ch checkHeight_not_EOF [of p1 "int (length stack)"] have "e \<noteq> EOF" by auto
  with ParseConfig_iterLoop [OF rounds_then_break [OF run nl lb]]
  have "ParseConfig p0 = (p1, opened h c (slice (line p1) start end), 0, Some e)"
    by (simp add: finish_def)
  with c opened_new [OF c] opened_parent [OF c] show ?thesis by simp
qed

theorem depth_error_keeps_node_witness:
  "rounds 2 ((defaultParser (linesReader [''a:'', ''b:'', ''c:'']))\<lparr>heightLimit := 2\<rparr>,
            rootHeap, [0], 0) =
     Some (\<lparr>content = \<lparr>pending = [(''c:'', False)], final = EOF\<rparr>, line = ''b:'',
             lineno = 2, size_p = 4, heightLimit = 2, sizeLimit = - 1\<rparr>,
           [\<lparr>name = ''__root__'', value_c = [1]\<rparr>, \<lparr>name = ''a'', value_c = [2]\<rparr>,
            \<lparr>name = ''b'', value_c = []\<rparr>], [0, 1, 2], 2) \<and>
   ParseConfig ((defaultParser (linesReader [''a:'', ''b:'', ''c:'']))\<lparr>heightLimit := 2\<rparr>) =
     (\<lparr>content = \<lparr>pending = [], final = EOF\<rparr>, line = ''c:'', lineno = 3,
        size_p = 6, heightLimit = 2, sizeLimit = - 1\<rparr>,
      [\<lparr>name = ''__root__'', value_c = [1]\<rparr>, \<lparr>name = ''a'', value_c = [2]\<rparr>,
       \<lparr>name = ''b'', value_c = [3]\<rparr>, \<lparr>name = ''c'', value_c = []\<rparr>],
      0, Some (ConfigError (heightMsg 2) 3 0))"
  using depth_error_keeps_node [OF ex_depth_run ex_depth_nextLine, of 0 1 False "- 1"
      "ConfigError (heightMsg 2) 3 0"] ex_depth_run
  by (simp add: ex_depth_scanLine checkHeight_def opened_def slice_def)

section \<open>The height limit\<close>

text \<open>
  Claim C2. Let a height limit \<open>N > 0\<close> be configured. At every state met during a parse
  the depth (the size of the stack less one) is at most \<open>N\<close>. When the next line opens a
  scope, the check runs after the push with the resulting depth, which is the size of the
  stack before the push: if that depth is at most \<open>N\<close> (so also when it equals \<open>N\<close>) the
  round ends with the new node open and the parse goes on; if it is \<open>N + 1\<close>,
  \<open>ParseConfig\<close> returns the depth error that names the limit \<open>N\<close>.
\<close>

theorem height_limit_boundary:
  assumes cfg: "heightLimit p0 = N" "0 < N"
    and run: "rounds n (p0, rootHeap, [0], 0) = Some (p, h, stack, c)"
    and nl: "nextLine p = (p1, None)"
    and sc: "scanLine (line p1) = Some (start, end, CHR '':'', fcs, nv)"
    and op: "\<not> (start = end \<and> \<not> fcs)"
  shows "int (length stack) \<le> N + 1 \<and>
         (if int (length stack) \<le> N
          then round p h stack c =
                 Some (p1, opened h c (slice (line p1) start end), stack @ [length h], length h)
          else ParseConfig p0 =
                 (p1, opened h c (slice (line p1) start end), 0,
                  Some (ConfigError (heightMsg N) (lineno p1) 0)))"
proof -
  from rounds_stackInv [OF run stackInv_rootHeap] have c: "c < length h"
    by (auto simp: stackInv_def list_all_iff)
  have hl: "heightLimit p1 = N"
    using rounds_heightLimit [OF run] nextLine_heightLimit [OF nl] cfg by simp
  have d: "int (length stack) \<le> N + 1"
    using rounds_depth [OF run] cfg by simp
  note lb = loopBody_open [OF sc op c, of stack]
  show ?thesis
  proof (cases "int (length stack) \<le> N")
    case True
    with hl cfg have "checkHeight p1 (int (length stack)) = None"
      by (simp add: checkHeight_def)
    with lb nl True d show ?thesis by (simp add: round_def)
  next
    case False
    with hl cfg have ch: "checkHeight p1 (int (length stack)) =
        Some (ConfigError (heightMsg N) (lineno p1) 0)"
      by (simp add: checkHeight_def)
    with lb have lb': "loopBody p1 h stack c =
        (opened h c (slice (line p1) start end),
         stack @ [length h], length h, Some (ConfigError (heightMsg N) (lineno p1) 0), True)"
      by simp
    from ParseConfig_iterLoop [OF rounds_then_break [OF run nl lb']] False d
    show ?thesis by (simp add: finish_def)
  qed
qed

theorem height_limit_boundary_witness:
  "NewParser (linesReader [''a:'', ''b:'', ''c:'']) [HeightLimit 2] =
     Inr ((defaultParser (linesReader [''a:'', ''b:'', ''c:'']))\<lparr>heightLimit := 2\<rparr>) \<and>
   round \<lparr>content = \<lparr>pending = [(''b:'', False), (''c:'', False)], final = EOF\<rparr>,
           line = ''a:'', lineno = 1, size_p = 2, heightLimit = 2, sizeLimit = - 1\<rparr>
         [\<lparr>name = ''__root__'', value_c = [1]\<rparr>, \<lparr>name = ''a'', value_c = []\<rparr>] [0, 1] 1 =
     Some (\<lparr>content = \<lparr>pending = [(''c:'', False)], final = EOF\<rparr>, line = ''b:'',
             lineno = 2, size_p = 4, heightLimit = 2, sizeLimit = - 1\<rparr>,
           [\<lparr>name = ''__root__'', value_c = [1]\<rparr>, \<lparr>name = ''a'', value_c = [2]\<rparr>,
            \<lparr>name = ''b'', value_c = []\<rparr>], [0, 1, 2], 2) \<and>
   ParseConfig ((defaultParser (linesReader [''a:'', ''b:'', ''c:'']))\<lparr>heightLimit := 2\<rparr>) =
     (\<lparr>content = \<lparr>pending = [], final = EOF\<rparr>, line = ''c:'', lineno = 3,
        size_p = 6, heightLimit = 2, sizeLimit = - 1\<rparr>,
      [\<lparr>name = ''__root__'', value_c = [1]\<rparr>, \<lparr>name = ''a'', value_c = [2]\<rparr>,
       \<lparr>name = ''b'', value_c = [3]\<rparr>, \<lparr>name = ''c'', value_c = []\<rparr>],
      0, Some (ConfigError (heightMsg 2) 3 0))"
proof -
  have cfg: "heightLimit ((defaultParser (linesReader [''a:'', ''b:'', ''c:'']))\<lparr>heightLimit := 2\<rparr>) = 2"
    "(0::int) < 2"
    by simp_all
  have op: "\<not> ((0::nat) = 1 \<and> \<not> False)" by simp
  note acc = height_limit_boundary [OF cfg ex_accept_run ex_accept_nextLine _ op, of "- 1"]
  note rej = height_limit_boundary [OF cfg ex_depth_run ex_depth_nextLine _ op, of "- 1"]
  from acc rej show ?thesis
    by (simp add: ex_accept_scanLine ex_depth_scanLine NewParser_HeightLimit opened_def slice_def)
qed

section \<open>The split of a pair\<close>

text \<open>
  Claim C1, at the input \<open>a:  b\<close> (a colon and two spaces). The last colon that is
  followed by a space stands at index 1. The scan leaves \<open>foundNVPairMaybe\<close> set after a
  match, so the second space is taken for a match as well and \<open>nvPairNameEnd\<close> is 2, the
  index of a space: the name of the pair is \<open>a:\<close> and its value is \<open>b\<close>, where a split at
  the last colon-space gives the name \<open>a\<close> and the value \<open> b\<close>.
\<close>

theorem pair_split_after_spaces:
  "scanLine ''a:  b'' = Some (0, 5, CHR ''b'', False, 2) \<and>
   ParseConfig (defaultParser (linesReader [''a:  b''])) =
     (\<lparr>content = \<lparr>pending = [], final = EOF\<rparr>, line = [], lineno = 1,
        size_p = 5, heightLimit = - 1, sizeLimit = - 1\<rparr>,
      [\<lparr>name = ''__root__'', value_c = [1]\<rparr>, \<lparr>name = ''a:'', value_c = [2]\<rparr>,
       \<lparr>name = ''b'', value_c = []\<rparr>], 0, None)"
proof -
  have run: "rounds 1 (defaultParser (linesReader [''a:  b'']), rootHeap, [0], 0) =
     Some (\<lparr>content = \<lparr>pending = [], final = EOF\<rparr>, line = ''a:  b'', lineno = 1,
             size_p = 5, heightLimit = - 1, sizeLimit = - 1\<rparr>,
           [\<lparr>name = ''__root__'', value_c = [1]\<rparr>, \<lparr>name = ''a:'', value_c = [2]\<rparr>,
            \<lparr>name = ''b'', value_c = []\<rparr>], [0], 0)"
    by (simp add: eval_defs)
  have nl: "nextLine \<lparr>content = \<lparr>pending = [], final = EOF\<rparr>, line = ''a:  b'', lineno = 1,
             size_p = 5, heightLimit = - 1, sizeLimit = - 1\<rparr> =
     (\<lparr>content = \<lparr>pending = [], final = EOF\<rparr>, line = [], lineno = 1,
        size_p = 5, heightLimit = - 1, sizeLimit = - 1\<rparr>, Some EOF)"
    by (simp add: eval_defs)
  have sc: "scanLine ''a:  b'' = Some (0, 5, CHR ''b'', False, 2)"
    by (simp add: eval_defs)
  from ParseConfig_iterLoop [OF rounds_then_error [OF run nl]] sc show ?thesis
    by (simp add: finish_def)
qed

section \<open>The line number of a size error\<close>

text \<open>
  Claim C3, at the input of the two lines \<open>a:\<close> and \<open>b:\<close>. Under a height limit of 1 the
  depth error is raised at the second line and carries the line number 2. Under a size
  limit of 3 the size error is raised while the same second line is read, and carries the
  line number 1: \<open>nextLine\<close> checks the size before it increments \<open>lineno\<close>, so a size
  error carries the number of the line before the one at which it is detected.
\<close>

theorem size_error_line_number:
  "ParseConfig ((defaultParser (linesReader [''a:'', ''b:'']))\<lparr>heightLimit := 1\<rparr>) =
     (\<lparr>content = \<lparr>pending = [], final = EOF\<rparr>, line = ''b:'', lineno = 2,
        size_p = 4, heightLimit = 1, sizeLimit = - 1\<rparr>,
      [\<lparr>name = ''__root__'', value_c = [1]\<rparr>, \<lparr>name = ''a'', value_c = [2]\<rparr>,
       \<lparr>name = ''b'', value_c = []\<rparr>],
      0, Some (ConfigError ''tree height exceeds limit: 1'' 2 0)) \<and>
   ParseConfig ((defaultParser (linesReader [''a:'', ''b:'']))\<lparr>sizeLimit := 3\<rparr>) =
     (\<lparr>content = \<lparr>pending = [], final = EOF\<rparr>, line = ''b:'', lineno = 1,
        size_p = 4, heightLimit = - 1, sizeLimit = 3\<rparr>,
      [\<lparr>name = ''__root__'', value_c = [1]\<rparr>, \<lparr>name = ''a'', value_c = []\<rparr>],
      0, Some (ConfigError ''size of config exceeds limit: 3'' 1 0))"
proof -
  have hmsg: "heightMsg 1 = ''tree height exceeds limit: 1''"
    by code_simp
  have smsg: "sizeMsg 3 = ''size of config exceeds limit: 3''"
    by code_simp
  have hrun: "rounds 1 ((defaultParser (linesReader [''a:'', ''b:'']))\<lparr>heightLimit := 1\<rparr>,
                        rootHeap, [0], 0) =
      Some (\<lparr>content = \<lparr>pending = [(''b:'', False)], final = EOF\<rparr>, line = ''a:'',
              lineno = 1, size_p = 2, heightLimit = 1, sizeLimit = - 1\<rparr>,
            [\<lparr>name = ''__root__'', value_c = [1]\<rparr>, \<lparr>name = ''a'', value_c = []\<rparr>],
            [0, 1], 1)"
    by (simp add: eval_defs)
  have hnl: "nextLine \<lparr>content = \<lparr>pending = [(''b:'', False)], final = EOF\<rparr>, line = ''a:'',
              lineno = 1, size_p = 2, heightLimit = 1, sizeLimit = - 1\<rparr> =
      (\<lparr>content = \<lparr>pending = [], final = EOF\<rparr>, line = ''b:'', lineno = 2,
         size_p = 4, heightLimit = 1, sizeLimit = - 1\<rparr>, None)"
    by (simp add: eval_defs)
  have hlb: "loopBody \<lparr>content = \<lparr>pending = [], final = EOF\<rparr>, line = ''b:'', lineno = 2,
         size_p = 4, heightLimit = 1, sizeLimit = - 1\<rparr>
        [\<lparr>name = ''__root__'', value_c = [1]\<rparr>, \<lparr>name = ''a'', value_c = []\<rparr>] [0, 1] 1 =
      ([\<lparr>name = ''__root__'', value_c = [1]\<rparr>, \<lparr>name = ''a'', value_c = [2]\<rparr>,
        \<lparr>name = ''b'', value_c = []\<rparr>], [0, 1, 2], 2,
       Some (ConfigError ''tree height exceeds limit: 1'' 2 0), True)"
    by (simp add: eval_defs hmsg)
  have srun: "rounds 1 ((defaultParser (linesReader [''a:'', ''b:'']))\<lparr>sizeLimit := 3\<rparr>,
                        rootHeap, [0], 0) =
      Some (\<lparr>content = \<lparr>pending = [(''b:'', False)], final = EOF\<rparr>, line = ''a:'',
              lineno = 1, size_p = 2, heightLimit = - 1, sizeLimit = 3\<rparr>,
            [\<lparr>name = ''__root__'', value_c = [1]\<rparr>, \<lparr>name = ''a'', value_c = []\<rparr>],
            [0, 1], 1)"
    by (simp add: eval_defs)
  have snl: "nextLine \<lparr>content = \<lparr>pending = [(''b:'', False)], final = EOF\<rparr>, line = ''a:'',
              lineno = 1, size_p = 2, heightLimit = - 1, sizeLimit = 3\<rparr> =
      (\<lparr>content = \<lparr>pending = [], final = EOF\<rparr>, line = ''b:'', lineno = 1,
         size_p = 4, heightLimit = - 1, sizeLimit = 3\<rparr>,
       Some (ConfigError ''size of config exceeds limit: 3'' 1 0))"
    by (simp add: eval_defs smsg)
  from ParseConfig_iterLoop [OF rounds_then_break [OF hrun hnl hlb]]
    ParseConfig_iterLoop [OF rounds_then_error [OF srun snl]]
  show ?thesis by (simp add: finish_def)
qed

section \<open>The size limit\<close>

text \<open>
  Claim C7. Let a size limit \<open>M > 0\<close> be configured and take any state met during a parse
  at which a line is left to read. \<open>nextLine\<close> checks the counter after every read, with
  the bytes counted so far plus those of the line being read: if that sum reaches or
  exceeds \<open>M\<close> it returns the size error that names \<open>M\<close>; if the sum stays under \<open>M\<close> it
  returns no error (or the reader's own error). An input whose bytes all together stay
  under \<open>M\<close> is parsed as it is without a size limit: the same store, root and error.
\<close>

theorem size_limit_check:
  assumes cfg: "sizeLimit p0 = M" "0 < M"
    and run: "rounds n (p0, rootHeap, [0], 0) = Some (p, h, stack, c)"
    and more: "pending (content p) \<noteq> []"
  shows "(M \<le> size_p p + fragBytes (lineFrags (pending (content p))) \<longrightarrow>
            snd (nextLine p) = Some (ConfigError (sizeMsg M) (lineno p) 0)) \<and>
         (size_p p + fragBytes (lineFrags (pending (content p))) < M \<longrightarrow>
            snd (nextLine p) = None \<or> snd (nextLine p) = Some (final (content p))) \<and>
         (size_p p0 + fragBytes (pending (content p0)) < M \<longrightarrow>
            ParseConfig (p0\<lparr>sizeLimit := - 1\<rparr>) =
              (case ParseConfig p0 of (p', h', root, e) \<Rightarrow> (p'\<lparr>sizeLimit := - 1\<rparr>, h', root, e)))"
proof -
  have sl: "sizeLimit p = M" using rounds_sizeLimit [OF run] cfg by simp
  from cfg have "M \<noteq> - 1" by simp
  from nextLine_size [OF sl this more] ParseConfig_unlimited [of p0] cfg show ?thesis
    by simp
qed

lemma ex_size_run:
  "rounds 1 ((defaultParser (linesReader [''a bunch of words'', ''more words'', '' more words'']))
               \<lparr>sizeLimit := 25\<rparr>, rootHeap, [0], 0) =
     Some (\<lparr>content = \<lparr>pending = [(''more words'', False), ('' more words'', False)],
                          final = EOF\<rparr>,
             line = ''a bunch of words'', lineno = 1, size_p = 16, heightLimit = - 1,
             sizeLimit = 25\<rparr>,
           [\<lparr>name = ''__root__'', value_c = [1]\<rparr>,
            \<lparr>name = ''a bunch of words'', value_c = []\<rparr>], [0], 0)"
  by (simp add: eval_defs)

theorem size_limit_check_witness:
  "rounds 1 ((defaultParser (linesReader [''a bunch of words'', ''more words'', '' more words'']))
               \<lparr>sizeLimit := 25\<rparr>, rootHeap, [0], 0) =
     Some (\<lparr>content = \<lparr>pending = [(''more words'', False), ('' more words'', False)],
                          final = EOF\<rparr>,
             line = ''a bunch of words'', lineno = 1, size_p = 16, heightLimit = - 1,
             sizeLimit = 25\<rparr>,
           [\<lparr>name = ''__root__'', value_c = [1]\<rparr>,
            \<lparr>name = ''a bunch of words'', value_c = []\<rparr>], [0], 0) \<and>
   (25::int) \<le> 16 + fragBytes (lineFrags [(''more words'', False), ('' more words'', False)]) \<and>
   snd (nextLine \<lparr>content = \<lparr>pending = [(''more words'', False), ('' more words'', False)],
                               final = EOF\<rparr>,
                  line = ''a bunch of words'', lineno = 1, size_p = 16, heightLimit = - 1,
                  sizeLimit = 25\<rparr>) =
     Some (ConfigError (sizeMsg 25) 1 0) \<and>
   fragBytes [(''a bunch of words'', False), (''more words'', False), ('' more words'', False)] < 40 \<and>
   ParseConfig ((defaultParser (linesReader [''a bunch of words'', ''more words'', '' more words'']))
                  \<lparr>sizeLimit := 40\<rparr>\<lparr>sizeLimit := - 1\<rparr>) =
     (case ParseConfig ((defaultParser
              (linesReader [''a bunch of words'', ''more words'', '' more words'']))
                  \<lparr>sizeLimit := 40\<rparr>) of
        (p', h', root, e) \<Rightarrow> (p'\<lparr>sizeLimit := - 1\<rparr>, h', root, e))"
proof -
  have cfg25: "sizeLimit ((defaultParser (linesReader [''a bunch of words'', ''more words'',
      '' more words'']))\<lparr>sizeLimit := 25\<rparr>) = 25" "(0::int) < 25"
    by simp_all
  have cfg40: "sizeLimit ((defaultParser (linesReader [''a bunch of words'', ''more words'',
      '' more words'']))\<lparr>sizeLimit := 40\<rparr>) = 40" "(0::int) < 40"
    by simp_all
  have run0: "rounds 0 ((defaultParser (linesReader [''a bunch of words'', ''more words'',
      '' more words'']))\<lparr>sizeLimit := 40\<rparr>, rootHeap, [0], 0) =
      Some ((defaultParser (linesReader [''a bunch of words'', ''more words'',
      '' more words'']))\<lparr>sizeLimit := 40\<rparr>, rootHeap, [0], 0)"
    by simp
  note rej = size_limit_check [OF cfg25 ex_size_run]
  note acc = size_limit_check [OF cfg40 run0]
  from rej acc ex_size_run show ?thesis
    by (simp add: defaultParser_def linesReader_def)
qed

section \<open>What the byte counter counts\<close>

text \<open>
  Claim C10. At every read during a parse the counter that \<open>checkSize\<close> compares with the
  limit is the counter at the start plus the bytes of the fragments that \<open>ReadLine\<close> has
  delivered so far, and a read that completes a logical line adds exactly the length of
  that line (\<open>p.line\<close>). For a reader over a stream of bytes no fragment holds a newline
  byte, and the bytes of all fragments and the newline bytes of the stream together are
  no more than the stream: newline bytes are never counted.
\<close>

theorem size_counts_line_bytes:
  assumes run: "rounds n (p0, h0, stack0, c0) = Some (p, h, stack, c)"
    and nl: "nextLine p = (p', e)"
  shows "(\<exists>rd. pending (content p0) = rd @ pending (content p') \<and>
               size_p p' = size_p p0 + fragBytes rd) \<and>
         (e = None \<longrightarrow> size_p p' = size_p p + int (length (line p'))) \<and>
         (content p0 = bytesReader bs \<longrightarrow>
            (\<forall>fr \<in> set (pending (content p0)). newline \<notin> set (fst fr)) \<and>
            fragBytes (pending (content p0)) + int (count_list bs newline) \<le> int (length bs))"
proof -
  from rounds_read [OF run] obtain r1 where
    r1: "pending (content p0) = r1 @ pending (content p)" "size_p p = size_p p0 + fragBytes r1"
    by auto
  from nextLine_read [OF nl] obtain r2 where
    r2: "pending (content p) = r2 @ pending (content p')" "size_p p' = size_p p + fragBytes r2"
    by auto
  from r1 r2 have "pending (content p0) = (r1 @ r2) @ pending (content p') \<and>
      size_p p' = size_p p0 + fragBytes (r1 @ r2)"
    by (simp add: fragBytes_append)
  then have a: "\<exists>rd. pending (content p0) = rd @ pending (content p') \<and>
               size_p p' = size_p p0 + fragBytes rd" by blast
  have b: "e = None \<longrightarrow> size_p p' = size_p p + int (length (line p'))"
    using nextLine_line nl by blast
  have c: "content p0 = bytesReader bs \<longrightarrow>
            (\<forall>fr \<in> set (pending (content p0)). newline \<notin> set (fst fr)) \<and>
            fragBytes (pending (content p0)) + int (count_list bs newline) \<le> int (length bs)"
  proof
    assume "content p0 = bytesReader bs"
    then have pd: "pending (content p0) = map (\<lambda>l. (l, False)) (bufioLines [] bs)"
      by (simp add: bytesReader_def linesReader_def)
    have "\<forall>fr \<in> set (pending (content p0)). newline \<notin> set (fst fr)"
      using bufioLines_no_newline [of "[]" _ bs] by (auto simp: pd)
    moreover have "fragBytes (pending (content p0)) + int (count_list bs newline) \<le> int (length bs)"
      using bufioLines_bytes [of "[]" bs] by (simp add: pd fragBytes_lines)
    ultimately show "(\<forall>fr \<in> set (pending (content p0)). newline \<notin> set (fst fr)) \<and>
            fragBytes (pending (content p0)) + int (count_list bs newline) \<le> int (length bs)"
      by simp
  qed
  from a b c show ?thesis by simp
qed

lemma ex_bytes_reader:
  "bytesReader (''ab'' @ [carriageReturn, newline] @ ''cd'' @ [newline]) =
     \<lparr>pending = [(''ab'', False), (''cd'', False)], final = EOF\<rparr>"
  by (simp add: bytesReader_def linesReader_def dropCR_def newline_def carriageReturn_def)

lemma ex_bytes_run:
  "rounds 1 (defaultParser \<lparr>pending = [(''ab'', False), (''cd'', False)], final = EOF\<rparr>,
            rootHeap, [0], 0) =
     Some (\<lparr>content = \<lparr>pending = [(''cd'', False)], final = EOF\<rparr>, line = ''ab'',
             lineno = 1, size_p = 2, heightLimit = - 1, sizeLimit = - 1\<rparr>,
           [\<lparr>name = ''__root__'', value_c = [1]\<rparr>, \<lparr>name = ''ab'', value_c = []\<rparr>], [0], 0)"
  by (simp add: eval_defs)

lemma ex_bytes_nextLine:
  "nextLine \<lparr>content = \<lparr>pending = [(''cd'', False)], final = EOF\<rparr>, line = ''ab'',
             lineno = 1, size_p = 2, heightLimit = - 1, sizeLimit = - 1\<rparr> =
     (\<lparr>content = \<lparr>pending = [], final = EOF\<rparr>, line = ''cd'',
        lineno = 2, size_p = 4, heightLimit = - 1, sizeLimit = - 1\<rparr>, None)"
  by (simp add: eval_defs)

theorem size_counts_line_bytes_witness:
  "content (defaultParser \<lparr>pending = [(''ab'', False), (''cd'', False)], final = EOF\<rparr>) =
     bytesReader (''ab'' @ [carriageReturn, newline] @ ''cd'' @ [newline]) \<and>
   rounds 1 (defaultParser \<lparr>pending = [(''ab'', False), (''cd'', False)], final = EOF\<rparr>,
            rootHeap, [0], 0) =
     Some (\<lparr>content = \<lparr>pending = [(''cd'', False)], final = EOF\<rparr>, line = ''ab'',
             lineno = 1, size_p = 2, heightLimit = - 1, sizeLimit = - 1\<rparr>,
           [\<lparr>name = ''__root__'', value_c = [1]\<rparr>, \<lparr>name = ''ab'', value_c = []\<rparr>], [0], 0) \<and>
   nextLine \<lparr>content = \<lparr>pending = [(''cd'', False)], final = EOF\<rparr>, line = ''ab'',
             lineno = 1, size_p = 2, heightLimit = - 1, sizeLimit = - 1\<rparr> =
     (\<lparr>content = \<lparr>pending = [], final = EOF\<rparr>, line = ''cd'',
        lineno = 2, size_p = 4, heightLimit = - 1, sizeLimit = - 1\<rparr>, None) \<and>
   (\<exists>rd. [(''ab'', False), (''cd'', False)] = rd @ [] \<and> (4::int) = 0 + fragBytes rd) \<and>
   (4::int) = 2 + int (length ''cd'') \<and>
   newline \<notin> set ''ab'' \<and> newline \<notin> set ''cd'' \<and>
   fragBytes [(''ab'', False), (''cd'', False)] +
     int (count_list (''ab'' @ [carriageReturn, newline] @ ''cd'' @ [newline]) newline)
   \<le> int (length (''ab'' @ [carriageReturn, newline] @ ''cd'' @ [newline]))"
  using size_counts_line_bytes [OF ex_bytes_run ex_bytes_nextLine,
      of "''ab'' @ [carriageReturn, newline] @ ''cd'' @ [newline]"]
    ex_bytes_reader ex_bytes_run ex_bytes_nextLine
  by (simp add: defaultParser_def)

end
